theory Spec2Isabelle
  imports Complex_Main
begin

section \<open>Strings\<close>

text \<open>
  JavaScript strings are modelled as HOL strings (lists of 8-bit characters), which covers
  ASCII text.  \<open>String.prototype.trim\<close> removes the ASCII white space and line terminators
  (TAB, LF, VT, FF, CR, SPACE) from both ends, \<open>toUpperCase\<close> maps \<open>a\<close>..\<open>z\<close> to
  \<open>A\<close>..\<open>Z\<close> (the code of the letter less 32, that is bit 5 cleared) and leaves every
  other character alone, \<open>includes\<close> is the search for
  a contiguous substring and \<open>startsWith\<close> the test for a prefix.
\<close>

definition isWhiteSpace :: "char \<Rightarrow> bool" where
  "isWhiteSpace c = (of_char c \<in> {9, 10, 11, 12, 13, 32 :: nat})"

definition trim :: "string \<Rightarrow> string" where
  "trim s = rev (dropWhile isWhiteSpace (rev (dropWhile isWhiteSpace s)))"

definition toUpperCaseChar :: "char \<Rightarrow> char" where
  "toUpperCaseChar c =
     (if 97 \<le> (of_char c :: nat) \<and> (of_char c :: nat) \<le> 122
      then (case c of Char b0 b1 b2 b3 b4 b5 b6 b7 \<Rightarrow> Char b0 b1 b2 b3 b4 False b6 b7)
      else c)"

definition toUpperCase :: "string \<Rightarrow> string" where
  "toUpperCase s = map toUpperCaseChar s"

definition startsWith :: "string \<Rightarrow> string \<Rightarrow> bool" where
  "startsWith s p = (take (length p) s = p)"

fun includes_str :: "string \<Rightarrow> string \<Rightarrow> bool" where
  "includes_str [] p = (p = [])"
| "includes_str (c # s) p = (startsWith (c # s) p \<or> includes_str s p)"

section \<open>Messages, responses and tool results\<close>

text \<open>
  A content block is a text block, a tool invocation \<open>{id, name, input}\<close> or an image
  (media type and data).  The content of a history entry is a plain string, an array of
  blocks or an array of tool results.  A tool result without the \<open>is_error\<close> field has
  \<open>is_error = False\<close>.
\<close>

datatype block =
    TextBlock string
  | ToolUse string string string
  | ImageBlock string string

datatype tool_result = ToolResult string string bool

datatype content = Str string | Blocks "block list" | Results "tool_result list"

datatype role = User | Assistant

record message =
  msg_role :: role
  msg_content :: content

record response =
  content :: "block list"
  input_tokens :: nat
  output_tokens :: nat

datatype error = Error string

fun message_of :: "error \<Rightarrow> string" where
  "message_of (Error m) = m"

fun is_tool_use :: "block \<Rightarrow> bool" where
  "is_tool_use (ToolUse i n inp) = True"
| "is_tool_use b = False"

fun tool_use_id :: "block \<Rightarrow> string" where
  "tool_use_id (ToolUse i n inp) = i"
| "tool_use_id b = []"

fun tool_name :: "block \<Rightarrow> string" where
  "tool_name (ToolUse i n inp) = n"
| "tool_name b = []"

fun tool_input :: "block \<Rightarrow> string" where
  "tool_input (ToolUse i n inp) = inp"
| "tool_input b = []"

section \<open>The state of the manager and of the event loop\<close>

text \<open>
  \<open>sendMessage\<close> is called by a route handler (the promise it returns is identified by a
  number) or by the \<open>setImmediate\<close> callback that drains the queue.  The callback awaits
  the call and passes its value to \<open>next.resolve\<close>, or the text \<open>Error: \<close> and the
  message when the call throws; \<open>next.resolve\<close> settles the promise of the call that
  queued the entry, so it is the invoker of that call.
\<close>

type_synonym channel = string

datatype invoker = Outside nat | DrainCallback invoker

datatype outcome = Resolved string | Rejected error

record stats =
  totalCost :: rat
  messageCount :: nat
  createdAt :: nat
  lastActivityAt :: "nat option"

record entry =
  userMessage :: string
  channelName :: "string option"
  messageContent :: "block list option"
  resolve :: invoker

text \<open>
  A run of \<open>_processMessage\<close> is a coroutine; \<open>pc\<close> is the \<open>await\<close> at which it is
  suspended: the first model call, a \<open>sendViaWebhook\<close> inside the loop over the blocks
  of the response (with the blocks still to visit), an \<open>executeTool\<close> (with the tool
  call, the tool calls still to execute and the results so far), or the model call at
  the end of a tool round.
\<close>

datatype pc =
    AwaitFirst
  | AwaitSend response "block list"
  | AwaitTool block "block list" "tool_result list"
  | AwaitNext

record run =
  channelId :: channel
  history :: nat
  assistantText :: string
  toolRound :: nat
  pc :: pc
  caller :: invoker

text \<open>The calls that leave the process, in the order they are made.\<close>

datatype call =
    ModelCall nat bool "message list"
  | ToolCall nat string string channel
  | Webhook nat channel string string

text \<open>
  The six maps of \<open>AgentSDKManager\<close>, and what the runtime holds: the arrays of the
  histories (\<open>conversationHistory\<close> maps a channel to the address of its array, and a run
  keeps the address in its local \<open>history\<close>), the suspended runs, the queue of
  \<open>setImmediate\<close> callbacks, the pending timers (deadline and channel of the callback),
  the clock in milliseconds, the promises handed to route handlers, the channels that
  \<open>meetBotManager.isChannelInMeeting\<close> reports in a meeting, and the calls made so far.
\<close>

record manager =
  conversationHistory :: "channel \<rightharpoonup> nat"
  sessionStats :: "channel \<rightharpoonup> stats"
  inactivityTimers :: "channel \<rightharpoonup> nat"
  processingLocks :: "channel set"
  messageQueues :: "channel \<rightharpoonup> entry list"
  channelNames :: "channel \<rightharpoonup> string"
  arrays :: "nat \<Rightarrow> message list"
  nextArray :: nat
  runs :: "nat \<rightharpoonup> run"
  nextRun :: nat
  immediates :: "(channel \<times> entry) list"
  timers :: "nat \<rightharpoonup> nat \<times> channel"
  nextTimer :: nat
  now :: nat
  promises :: "nat \<rightharpoonup> outcome"
  nextPromise :: nat
  meetings :: "channel set"
  calls :: "call list"

definition init :: manager where
  "init = \<lparr> conversationHistory = Map.empty, sessionStats = Map.empty,
     inactivityTimers = Map.empty, processingLocks = {}, messageQueues = Map.empty,
     channelNames = Map.empty, arrays = (\<lambda>a. []), nextArray = 0, runs = Map.empty,
     nextRun = 0, immediates = [], timers = Map.empty, nextTimer = 0, now = 0,
     promises = Map.empty, nextPromise = 0, meetings = {}, calls = [] \<rparr>"

definition INACTIVITY_TIMEOUT_MS :: nat where
  "INACTIVITY_TIMEOUT_MS = 30 * 60 * 1000"

definition MAX_TOOL_ROUNDS :: nat where
  "MAX_TOOL_ROUNDS = 50"

section \<open>The session store\<close>

definition resetInactivityTimer :: "channel \<Rightarrow> manager \<Rightarrow> manager" where
  "resetInactivityTimer ch s =
     (let s1 = (case sessionStats s ch of
                  Some st \<Rightarrow> s\<lparr>sessionStats := (sessionStats s)(ch \<mapsto> st\<lparr>lastActivityAt := Some (now s)\<rparr>)\<rparr>
                | None \<Rightarrow> s);
          s2 = (case inactivityTimers s1 ch of
                  Some t \<Rightarrow> s1\<lparr>timers := (timers s1)(t := None)\<rparr>
                | None \<Rightarrow> s1)
      in s2\<lparr>timers := (timers s2)(nextTimer s2 \<mapsto> (now s2 + INACTIVITY_TIMEOUT_MS, ch)),
            inactivityTimers := (inactivityTimers s2)(ch \<mapsto> nextTimer s2),
            nextTimer := Suc (nextTimer s2)\<rparr>)"

definition getOrInitHistory :: "channel \<Rightarrow> manager \<Rightarrow> nat \<times> manager" where
  "getOrInitHistory ch s =
     (case conversationHistory s ch of
        None \<Rightarrow>
          (nextArray s,
           resetInactivityTimer ch
             (s\<lparr>conversationHistory := (conversationHistory s)(ch \<mapsto> nextArray s),
                arrays := (arrays s)(nextArray s := []),
                nextArray := Suc (nextArray s),
                sessionStats := (sessionStats s)(ch \<mapsto>
                  \<lparr>totalCost = 0, messageCount = 0, createdAt = now s,
                   lastActivityAt = Some (now s)\<rparr>)\<rparr>))
      | Some a \<Rightarrow> (a, resetInactivityTimer ch s))"

definition addCost :: "channel \<Rightarrow> rat \<Rightarrow> manager \<Rightarrow> manager" where
  "addCost ch cost s =
     (let st = (case sessionStats s ch of
                  None \<Rightarrow> \<lparr>totalCost = 0, messageCount = 0, createdAt = now s,
                            lastActivityAt = None\<rparr>
                | Some st \<Rightarrow> st)
      in s\<lparr>sessionStats := (sessionStats s)(ch \<mapsto>
             st\<lparr>totalCost := totalCost st + cost, messageCount := messageCount st + 1\<rparr>)\<rparr>)"

definition closeSession :: "channel \<Rightarrow> manager \<Rightarrow> manager" where
  "closeSession ch s =
     (case conversationHistory s ch of
        None \<Rightarrow> s
      | Some a \<Rightarrow>
          (let s1 = (case inactivityTimers s ch of
                       Some t \<Rightarrow> s\<lparr>timers := (timers s)(t := None),
                                   inactivityTimers := (inactivityTimers s)(ch := None)\<rparr>
                     | None \<Rightarrow> s)
           in s1\<lparr>conversationHistory := (conversationHistory s1)(ch := None),
                 sessionStats := (sessionStats s1)(ch := None)\<rparr>))"

definition push :: "nat \<Rightarrow> message \<Rightarrow> manager \<Rightarrow> manager" where
  "push a m s = s\<lparr>arrays := (arrays s)(a := arrays s a @ [m])\<rparr>"

section \<open>Promises\<close>

fun fulfil :: "invoker \<Rightarrow> string \<Rightarrow> manager \<Rightarrow> manager" where
  "fulfil (Outside p) v s = s\<lparr>promises := (promises s)(p \<mapsto> Resolved v)\<rparr>"
| "fulfil (DrainCallback k) v s = fulfil k v s"

fun reject :: "invoker \<Rightarrow> error \<Rightarrow> manager \<Rightarrow> manager" where
  "reject (Outside p) e s = s\<lparr>promises := (promises s)(p \<mapsto> Rejected e)\<rparr>"
| "reject (DrainCallback k) e s = fulfil k (''Error: '' @ message_of e) s"

section \<open>sendMessage and the reasoning loop\<close>

definition cost_of :: "response \<Rightarrow> rat" where
  "cost_of resp =
     (of_nat (input_tokens resp) / 1000000) * 3 + (of_nat (output_tokens resp) / 1000000) * 15"

definition isGoogleMeet :: "channel \<Rightarrow> string \<Rightarrow> bool" where
  "isGoogleMeet ch um = (startsWith ch ''test_'' \<or> includes_str um ''[Google Meet]'')"

text \<open>
  What \<open>sendMessage\<close> does once \<open>_processMessage\<close> has returned \<open>v\<close>: it releases the
  lock, takes the oldest queued entry (\<open>queue.shift()\<close>) and hands it to \<open>setImmediate\<close>,
  and returns \<open>v\<close> to its invoker.  When \<open>_processMessage\<close> throws, it releases the lock
  and throws again.
\<close>

definition sendMessage_return :: "nat \<Rightarrow> run \<Rightarrow> string \<Rightarrow> manager \<Rightarrow> manager" where
  "sendMessage_return r x v s =
     (let s1 = s\<lparr>runs := (runs s)(r := None),
                  processingLocks := processingLocks s - {channelId x}\<rparr>;
          s2 = (case messageQueues s1 (channelId x) of
                  Some (next # queue) \<Rightarrow>
                    s1\<lparr>messageQueues := (messageQueues s1)(channelId x \<mapsto> queue),
                       immediates := immediates s1 @ [(channelId x, next)]\<rparr>
                | _ \<Rightarrow> s1)
      in fulfil (caller x) v s2)"

definition sendMessage_throw :: "nat \<Rightarrow> run \<Rightarrow> error \<Rightarrow> manager \<Rightarrow> manager" where
  "sendMessage_throw r x e s =
     reject (caller x) e
       (s\<lparr>runs := (runs s)(r := None), processingLocks := processingLocks s - {channelId x}\<rparr>)"

text \<open>After the loop: the last response goes to the history, its cost is added.\<close>

definition finish :: "nat \<Rightarrow> response \<Rightarrow> run \<Rightarrow> manager \<Rightarrow> manager" where
  "finish r resp x s =
     sendMessage_return r x (assistantText x)
       (addCost (channelId x) (cost_of resp)
          (push (history x) \<lparr>msg_role = Assistant, msg_content = Blocks (content resp)\<rparr> s))"

text \<open>
  The rest of an iteration once the blocks of the response have been visited: without a
  tool call the loop is left; otherwise the response goes to the history and the first
  tool is called.
\<close>

definition after_blocks :: "nat \<Rightarrow> response \<Rightarrow> run \<Rightarrow> manager \<Rightarrow> manager" where
  "after_blocks r resp x s =
     (case filter is_tool_use (content resp) of
        [] \<Rightarrow> finish r resp x s
      | t # ts \<Rightarrow>
          (let s1 = push (history x) \<lparr>msg_role = Assistant, msg_content = Blocks (content resp)\<rparr> s
           in s1\<lparr>runs := (runs s1)(r \<mapsto> x\<lparr>pc := AwaitTool t ts []\<rparr>),
                 calls := calls s1 @ [ToolCall r (tool_name t) (tool_input t) (channelId x)]\<rparr>))"

text \<open>
  The loop over the blocks of a response, from the blocks still to visit.  A text block
  that is not blank is added to \<open>assistantText\<close>; it is sent unless its trimmed,
  upper-cased text is or contains the marker, the channel has no stored name, or the
  channel is in a meeting.  The run is suspended at each \<open>sendViaWebhook\<close>.
\<close>

fun text_blocks :: "block list \<Rightarrow> nat \<Rightarrow> response \<Rightarrow> run \<Rightarrow> manager \<Rightarrow> manager" where
  "text_blocks [] r resp x s = after_blocks r resp x s"
| "text_blocks (TextBlock t # bs) r resp x s =
     (if trim t \<noteq> [] then
        (let x1 = x\<lparr>assistantText := assistantText x @ t\<rparr> in
         if toUpperCase (trim t) = ''[SILENT]'' then text_blocks bs r resp x1 s
         else if includes_str (toUpperCase (trim t)) ''[SILENT]'' then text_blocks bs r resp x1 s
         else (case channelNames s (channelId x) of
                 None \<Rightarrow> text_blocks bs r resp x1 s
               | Some storedChannelName \<Rightarrow>
                   if storedChannelName = [] then text_blocks bs r resp x1 s
                   else if channelId x \<in> meetings s then text_blocks bs r resp x1 s
                   else s\<lparr>runs := (runs s)(r \<mapsto> x1\<lparr>pc := AwaitSend resp bs\<rparr>),
                          calls := calls s @ [Webhook r (channelId x) storedChannelName (trim t)]\<rparr>))
      else text_blocks bs r resp x s)"
| "text_blocks (b # bs) r resp x s = text_blocks bs r resp x s"

text \<open>The head of the \<open>while\<close> loop, entered with a response.\<close>

definition loop_head :: "nat \<Rightarrow> response \<Rightarrow> run \<Rightarrow> manager \<Rightarrow> manager" where
  "loop_head r resp x s =
     (if toolRound x < MAX_TOOL_ROUNDS then text_blocks (content resp) r resp x s
      else finish r resp x s)"

text \<open>
  \<open>_processMessage\<close> up to its first \<open>await\<close>: the history is fetched or created, the
  user's message is pushed and the model is called with a copy of the history (the flag
  says whether the Google Meet rules are in the system prompt).
\<close>

definition processMessage :: "channel \<Rightarrow> string \<Rightarrow> block list option \<Rightarrow> invoker \<Rightarrow> manager \<Rightarrow> manager" where
  "processMessage ch um mc k s =
     (let (a, s1) = getOrInitHistory ch s;
          contentToAdd = (case mc of Some bs \<Rightarrow> Blocks bs | None \<Rightarrow> Str um);
          s2 = push a \<lparr>msg_role = User, msg_content = contentToAdd\<rparr> s1
      in s2\<lparr>runs := (runs s2)(nextRun s2 \<mapsto>
               \<lparr>channelId = ch, history = a, assistantText = [], toolRound = 0,
                pc = AwaitFirst, caller = k\<rparr>),
             nextRun := Suc (nextRun s2),
             calls := calls s2 @ [ModelCall (nextRun s2) (isGoogleMeet ch um) (arrays s2 a)]\<rparr>)"

definition sendMessage :: "channel \<Rightarrow> string \<Rightarrow> string option \<Rightarrow> block list option \<Rightarrow> invoker \<Rightarrow> manager \<Rightarrow> manager" where
  "sendMessage ch um cn mc k s =
     (let s1 = (case cn of
                  None \<Rightarrow> s
                | Some n \<Rightarrow> if n \<noteq> [] then s\<lparr>channelNames := (channelNames s)(ch \<mapsto> n)\<rparr> else s)
      in if ch \<in> processingLocks s1 then
           s1\<lparr>messageQueues := (messageQueues s1)(ch \<mapsto>
                (case messageQueues s1 ch of None \<Rightarrow> [] | Some q \<Rightarrow> q)
                @ [\<lparr>userMessage = um, channelName = cn, messageContent = mc, resolve = k\<rparr>])\<rparr>
         else processMessage ch um mc k (s1\<lparr>processingLocks := insert ch (processingLocks s1)\<rparr>))"

section \<open>The event loop\<close>

text \<open>
  One event is one turn of the event loop, run to completion: a route handler calls
  \<open>sendMessage\<close>; a pending model call, \<open>sendViaWebhook\<close> or \<open>executeTool\<close> of a run
  settles; the oldest \<open>setImmediate\<close> callback runs; a timer that is due fires; the reset
  route calls \<open>closeSession\<close>; time passes; a channel enters or leaves a meeting.  An event
  that cannot happen in the state gives \<open>None\<close>.
\<close>

datatype event =
    SendMessage channel string "string option" "block list option"
  | ModelReply nat "error + response"
  | WebhookDone nat "error + unit"
  | ToolDone nat "error + string"
  | Immediate
  | TimerFired nat
  | ResetSession channel
  | Tick nat
  | MeetingChange channel bool

definition tool_done :: "nat \<Rightarrow> run \<Rightarrow> block \<Rightarrow> block list \<Rightarrow> tool_result list \<Rightarrow> error + string \<Rightarrow> manager \<Rightarrow> manager" where
  "tool_done r x t ts toolResults res s =
     (let toolResults1 = toolResults @
            [case res of
               Inr result \<Rightarrow> ToolResult (tool_use_id t) result False
             | Inl e \<Rightarrow> ToolResult (tool_use_id t) (''Error: '' @ message_of e) True]
      in case ts of
           t1 # ts1 \<Rightarrow>
             s\<lparr>runs := (runs s)(r \<mapsto> x\<lparr>pc := AwaitTool t1 ts1 toolResults1\<rparr>),
               calls := calls s @ [ToolCall r (tool_name t1) (tool_input t1) (channelId x)]\<rparr>
         | [] \<Rightarrow>
             (let s1 = push (history x) \<lparr>msg_role = User, msg_content = Results toolResults1\<rparr> s
              in s1\<lparr>runs := (runs s1)(r \<mapsto> x\<lparr>pc := AwaitNext\<rparr>),
                    calls := calls s1 @ [ModelCall r False (arrays s1 (history x))]\<rparr>))"

definition step :: "event \<Rightarrow> manager \<Rightarrow> manager option" where
  "step ev s =
     (case ev of
        SendMessage ch um cn mc \<Rightarrow>
          Some (sendMessage ch um cn mc (Outside (nextPromise s))
                  (s\<lparr>nextPromise := Suc (nextPromise s)\<rparr>))
      | ModelReply r rep \<Rightarrow>
          (case runs s r of
             None \<Rightarrow> None
           | Some x \<Rightarrow>
               (case pc x of
                  AwaitFirst \<Rightarrow>
                    (case rep of
                       Inl e \<Rightarrow> Some (sendMessage_throw r x e s)
                     | Inr resp \<Rightarrow> Some (loop_head r resp x s))
                | AwaitNext \<Rightarrow>
                    (case rep of
                       Inl e \<Rightarrow> Some (sendMessage_throw r x e s)
                     | Inr resp \<Rightarrow> Some (loop_head r resp (x\<lparr>toolRound := toolRound x + 1\<rparr>) s))
                | _ \<Rightarrow> None))
      | WebhookDone r res \<Rightarrow>
          (case runs s r of
             None \<Rightarrow> None
           | Some x \<Rightarrow>
               (case pc x of
                  AwaitSend resp bs \<Rightarrow> Some (text_blocks bs r resp x s)
                | _ \<Rightarrow> None))
      | ToolDone r res \<Rightarrow>
          (case runs s r of
             None \<Rightarrow> None
           | Some x \<Rightarrow>
               (case pc x of
                  AwaitTool t ts toolResults \<Rightarrow> Some (tool_done r x t ts toolResults res s)
                | _ \<Rightarrow> None))
      | Immediate \<Rightarrow>
          (case immediates s of
             [] \<Rightarrow> None
           | (ch, next) # rest \<Rightarrow>
               Some (sendMessage ch (userMessage next) (channelName next) (messageContent next)
                       (DrainCallback (resolve next)) (s\<lparr>immediates := rest\<rparr>)))
      | TimerFired t \<Rightarrow>
          (case timers s t of
             None \<Rightarrow> None
           | Some (deadline, ch) \<Rightarrow>
               if deadline \<le> now s then Some (closeSession ch (s\<lparr>timers := (timers s)(t := None)\<rparr>))
               else None)
      | ResetSession ch \<Rightarrow> Some (closeSession ch s)
      | Tick d \<Rightarrow> Some (s\<lparr>now := now s + d\<rparr>)
      | MeetingChange ch b \<Rightarrow>
          Some (s\<lparr>meetings := (if b then insert ch (meetings s) else meetings s - {ch})\<rparr>))"

fun steps :: "event list \<Rightarrow> manager \<Rightarrow> manager option" where
  "steps [] s = Some s"
| "steps (ev # evs) s = (case step ev s of None \<Rightarrow> None | Some s1 \<Rightarrow> steps evs s1)"

fun target :: "invoker \<Rightarrow> nat" where
  "target (Outside p) = p"
| "target (DrainCallback k) = target k"

fun is_outside :: "invoker \<Rightarrow> bool" where
  "is_outside (Outside p) = True"
| "is_outside (DrainCallback k) = False"

definition resumed :: "nat \<Rightarrow> run \<Rightarrow> manager \<Rightarrow> manager \<Rightarrow> bool" where
  "resumed r x s s' =
     (conversationHistory s' = conversationHistory s \<and> nextArray s' = nextArray s \<and>
      nextRun s' = nextRun s \<and> nextPromise s' = nextPromise s \<and> timers s' = timers s \<and>
      inactivityTimers s' = inactivityTimers s \<and> nextTimer s' = nextTimer s \<and> now s' = now s \<and>
      channelNames s' = channelNames s \<and> meetings s' = meetings s \<and>
      (case runs s' r of
         Some x' \<Rightarrow>
           runs s' = (runs s)(r \<mapsto> x') \<and> channelId x' = channelId x \<and>
           history x' = history x \<and> caller x' = caller x \<and> toolRound x' = toolRound x \<and>
           processingLocks s' = processingLocks s \<and> messageQueues s' = messageQueues s \<and>
           immediates s' = immediates s \<and> promises s' = promises s \<and>
           sessionStats s' = sessionStats s
       | None \<Rightarrow>
           runs s' = (runs s)(r := None) \<and>
           processingLocks s' = processingLocks s - {channelId x} \<and>
           ((\<exists>e. promises s' = promises (reject (caller x) e s) \<and>
                 sessionStats s' = sessionStats s \<and> messageQueues s' = messageQueues s \<and>
                 immediates s' = immediates s)
            \<or> (\<exists>v resp. promises s' = promises (fulfil (caller x) v s) \<and>
                 sessionStats s' = sessionStats (addCost (channelId x) (cost_of resp) s) \<and>
                 (case messageQueues s (channelId x) of
                    Some (next # queue) \<Rightarrow>
                      messageQueues s' = (messageQueues s)(channelId x \<mapsto> queue) \<and>
                      immediates s' = immediates s @ [(channelId x, next)]
                  | _ \<Rightarrow> messageQueues s' = messageQueues s \<and> immediates s' = immediates s)))))"

definition new_run :: "channel \<Rightarrow> nat \<Rightarrow> invoker \<Rightarrow> run" where
  "new_run ch a k = \<lparr>channelId = ch, history = a, assistantText = [], toolRound = 0,
     pc = AwaitFirst, caller = k\<rparr>"

definition set_name :: "channel \<Rightarrow> string option \<Rightarrow> manager \<Rightarrow> manager" where
  "set_name ch cn s = (case cn of None \<Rightarrow> s
     | Some n \<Rightarrow> if n \<noteq> [] then s\<lparr>channelNames := (channelNames s)(ch \<mapsto> n)\<rparr> else s)"

definition inv_locks :: "manager \<Rightarrow> bool" where
  "inv_locks s =
     ((\<forall>ch. ch \<in> processingLocks s \<longleftrightarrow> (\<exists>r x. runs s r = Some x \<and> channelId x = ch)) \<and>
      (\<forall>r r' x y. runs s r = Some x \<longrightarrow> runs s r' = Some y \<longrightarrow> channelId x = channelId y \<longrightarrow> r = r') \<and>
      (\<forall>r. nextRun s \<le> r \<longrightarrow> runs s r = None))"

definition inv_arrays :: "manager \<Rightarrow> bool" where
  "inv_arrays s =
     ((\<forall>r x ch. runs s r = Some x \<longrightarrow> conversationHistory s ch = Some (history x) \<longrightarrow> channelId x = ch) \<and>
      (\<forall>c1 c2 a. conversationHistory s c1 = Some a \<longrightarrow> conversationHistory s c2 = Some a \<longrightarrow> c1 = c2) \<and>
      (\<forall>c a. conversationHistory s c = Some a \<longrightarrow> a < nextArray s) \<and>
      (\<forall>r x. runs s r = Some x \<longrightarrow> history x < nextArray s) \<and>
      (\<forall>r r' x y. runs s r = Some x \<longrightarrow> runs s r' = Some y \<longrightarrow> history x = history y \<longrightarrow> r = r'))"

definition inv_fresh :: "manager \<Rightarrow> bool" where
  "inv_fresh s =
     ((\<forall>p. promises s p \<noteq> None \<longrightarrow> p < nextPromise s) \<and>
      (\<forall>r x. runs s r = Some x \<longrightarrow> target (caller x) < nextPromise s) \<and>
      (\<forall>ch q e. messageQueues s ch = Some q \<longrightarrow> e \<in> set q \<longrightarrow> target (resolve e) < nextPromise s) \<and>
      (\<forall>ch e. (ch, e) \<in> set (immediates s) \<longrightarrow> target (resolve e) < nextPromise s))"

definition inv_promise :: "nat \<Rightarrow> manager \<Rightarrow> bool" where
  "inv_promise p s =
     (p < nextPromise s \<and> (\<forall>e. promises s p \<noteq> Some (Rejected e)) \<and>
      (\<forall>r x. runs s r = Some x \<longrightarrow> target (caller x) = p \<longrightarrow> \<not> is_outside (caller x)))"

lemma push_frame [simp]:
  "conversationHistory (push a m s) = conversationHistory s"
  "sessionStats (push a m s) = sessionStats s"
  "inactivityTimers (push a m s) = inactivityTimers s"
  "processingLocks (push a m s) = processingLocks s"
  "messageQueues (push a m s) = messageQueues s"
  "channelNames (push a m s) = channelNames s"
  "nextArray (push a m s) = nextArray s"
  "runs (push a m s) = runs s"
  "nextRun (push a m s) = nextRun s"
  "immediates (push a m s) = immediates s"
  "timers (push a m s) = timers s"
  "nextTimer (push a m s) = nextTimer s"
  "now (push a m s) = now s"
  "promises (push a m s) = promises s"
  "nextPromise (push a m s) = nextPromise s"
  "meetings (push a m s) = meetings s"
  "calls (push a m s) = calls s"
  by (simp_all add: push_def)

lemma addCost_frame [simp]:
  "conversationHistory (addCost ch c s) = conversationHistory s"
  "inactivityTimers (addCost ch c s) = inactivityTimers s"
  "processingLocks (addCost ch c s) = processingLocks s"
  "messageQueues (addCost ch c s) = messageQueues s"
  "channelNames (addCost ch c s) = channelNames s"
  "arrays (addCost ch c s) = arrays s"
  "nextArray (addCost ch c s) = nextArray s"
  "runs (addCost ch c s) = runs s"
  "nextRun (addCost ch c s) = nextRun s"
  "immediates (addCost ch c s) = immediates s"
  "timers (addCost ch c s) = timers s"
  "nextTimer (addCost ch c s) = nextTimer s"
  "now (addCost ch c s) = now s"
  "promises (addCost ch c s) = promises s"
  "nextPromise (addCost ch c s) = nextPromise s"
  "meetings (addCost ch c s) = meetings s"
  "calls (addCost ch c s) = calls s"
  by (simp_all add: addCost_def Let_def)

lemma resetInactivityTimer_frame [simp]:
  "conversationHistory (resetInactivityTimer ch s) = conversationHistory s"
  "processingLocks (resetInactivityTimer ch s) = processingLocks s"
  "messageQueues (resetInactivityTimer ch s) = messageQueues s"
  "channelNames (resetInactivityTimer ch s) = channelNames s"
  "arrays (resetInactivityTimer ch s) = arrays s"
  "nextArray (resetInactivityTimer ch s) = nextArray s"
  "runs (resetInactivityTimer ch s) = runs s"
  "nextRun (resetInactivityTimer ch s) = nextRun s"
  "immediates (resetInactivityTimer ch s) = immediates s"
  "now (resetInactivityTimer ch s) = now s"
  "promises (resetInactivityTimer ch s) = promises s"
  "nextPromise (resetInactivityTimer ch s) = nextPromise s"
  "meetings (resetInactivityTimer ch s) = meetings s"
  "calls (resetInactivityTimer ch s) = calls s"
  by (simp_all add: resetInactivityTimer_def Let_def split: option.split)

lemma closeSession_frame [simp]:
  "processingLocks (closeSession ch s) = processingLocks s"
  "messageQueues (closeSession ch s) = messageQueues s"
  "channelNames (closeSession ch s) = channelNames s"
  "arrays (closeSession ch s) = arrays s"
  "nextArray (closeSession ch s) = nextArray s"
  "runs (closeSession ch s) = runs s"
  "nextRun (closeSession ch s) = nextRun s"
  "immediates (closeSession ch s) = immediates s"
  "nextTimer (closeSession ch s) = nextTimer s"
  "now (closeSession ch s) = now s"
  "promises (closeSession ch s) = promises s"
  "nextPromise (closeSession ch s) = nextPromise s"
  "meetings (closeSession ch s) = meetings s"
  "calls (closeSession ch s) = calls s"
  by (simp_all add: closeSession_def Let_def split: option.split)

lemma addCost_push [simp]: "sessionStats (addCost ch c (push a m s)) = sessionStats (addCost ch c s)"
  by (simp add: addCost_def push_def Let_def cong: option.case_cong)

lemma fulfil_eq: "fulfil k v s = s\<lparr>promises := (promises s)(target k \<mapsto> Resolved v)\<rparr>"
proof (induction k)
  case (Outside p)
  show ?case by (simp only: fulfil.simps target.simps)
next
  case (DrainCallback k)
  then show ?case by (simp only: fulfil.simps target.simps)
qed

lemma reject_eq:
  "reject k e s = s\<lparr>promises := (promises s)(target k \<mapsto>
      (if is_outside k then Rejected e else Resolved (''Error: '' @ message_of e)))\<rparr>"
  by (cases k) (simp_all add: fulfil_eq)

lemma resumed_throw: "resumed r x s (sendMessage_throw r x e s)"
  unfolding resumed_def sendMessage_throw_def
  by (auto simp: reject_eq)

lemma resumed_finish: "resumed r x s (finish r resp x s)"
  unfolding finish_def sendMessage_return_def resumed_def
  apply (simp add: fulfil_eq Let_def split: option.split list.split)
  apply (intro conjI impI allI disjI2 exI[of _ resp] exI[of _ "assistantText x"])
  apply (simp_all)
  done

lemma resumed_suspend:
  "channelId x1 = channelId x \<Longrightarrow> history x1 = history x \<Longrightarrow> caller x1 = caller x \<Longrightarrow>
   toolRound x1 = toolRound x \<Longrightarrow>
   resumed r x s (s\<lparr>runs := (runs s)(r \<mapsto> x1), calls := c\<rparr>)"
  by (simp add: resumed_def)

lemma resumed_after_blocks: "resumed r x s (after_blocks r resp x s)"
  unfolding after_blocks_def
  apply (simp split: list.split add: resumed_finish Let_def)
  apply (simp add: resumed_def)
  done

lemma resumed_same:
  "channelId x1 = channelId x \<Longrightarrow> history x1 = history x \<Longrightarrow> caller x1 = caller x \<Longrightarrow>
   toolRound x1 = toolRound x \<Longrightarrow> resumed r x1 s s' = resumed r x s s'"
  by (simp add: resumed_def cong: option.case_cong list.case_cong)

lemma resumed_text_blocks: "resumed r x s (text_blocks bs r resp x s)"
proof (induction bs r resp x s rule: text_blocks.induct)
  case (1 r resp x s)
  then show ?case by (simp add: resumed_after_blocks)
next
  case (2 t bs r resp x s)
  let ?x1 = "x\<lparr>assistantText := assistantText x @ t\<rparr>"
  have same: "\<And>s'. resumed r ?x1 s s' = resumed r x s s'"
    by (rule resumed_same) simp_all
  show ?case
    using 2 by (simp add: Let_def same resumed_suspend split: option.split)
qed simp_all

lemma resumed_loop_head: "resumed r x s (loop_head r resp x s)"
  by (simp add: loop_head_def resumed_text_blocks resumed_finish)

lemma resumed_tool_done: "resumed r x s (tool_done r x t ts trs res s)"
  by (simp add: tool_done_def resumed_def Let_def split: list.split)

lemma finish_ends: "runs (finish r resp x s) r = None"
  by (simp add: finish_def sendMessage_return_def fulfil_eq Let_def split: option.split list.split)

lemma loop_head_bound:
  "runs (loop_head r resp x s) r \<noteq> None \<Longrightarrow> toolRound x < MAX_TOOL_ROUNDS"
  by (auto simp: loop_head_def finish_ends split: if_splits)

lemma step_cases [consumes 1, case_names run send immediate timer reset tick meeting]:
  assumes "step ev s = Some s'"
  obtains
    (run) r x x1 where "runs s r = Some x" and "resumed r x1 s s'"
      and "x1 = x \<or> (x1 = x\<lparr>toolRound := toolRound x + 1\<rparr> \<and> pc x = AwaitNext \<and>
             (runs s' r \<noteq> None \<longrightarrow> toolRound x + 1 < MAX_TOOL_ROUNDS))"
      and "(\<exists>rep. ev = ModelReply r rep) \<or> (\<exists>res. ev = WebhookDone r res) \<or>
           (\<exists>res. ev = ToolDone r res)"
  | (send) ch um cn mc where "ev = SendMessage ch um cn mc"
      and "s' = sendMessage ch um cn mc (Outside (nextPromise s)) (s\<lparr>nextPromise := Suc (nextPromise s)\<rparr>)"
  | (immediate) ch nx rest where "ev = Immediate" and "immediates s = (ch, nx) # rest"
      and "s' = sendMessage ch (userMessage nx) (channelName nx) (messageContent nx)
                  (DrainCallback (resolve nx)) (s\<lparr>immediates := rest\<rparr>)"
  | (timer) t deadline ch where "ev = TimerFired t" and "timers s t = Some (deadline, ch)"
      and "deadline \<le> now s" and "s' = closeSession ch (s\<lparr>timers := (timers s)(t := None)\<rparr>)"
  | (reset) ch where "ev = ResetSession ch" and "s' = closeSession ch s"
  | (tick) d where "ev = Tick d" and "s' = s\<lparr>now := now s + d\<rparr>"
  | (meeting) ch b where "ev = MeetingChange ch b"
      and "s' = s\<lparr>meetings := (if b then insert ch (meetings s) else meetings s - {ch})\<rparr>"
proof (cases ev)
  case (SendMessage ch um cn mc)
  then show ?thesis using assms send by (simp add: step_def)
next
  case (ModelReply r rep)
  then obtain x where x: "runs s r = Some x"
    using assms by (auto simp: step_def split: option.splits)
  show ?thesis
  proof (cases "pc x")
    case AwaitFirst
    then have "resumed r x s s'"
      using assms ModelReply x
      by (auto simp: step_def resumed_throw resumed_loop_head split: sum.splits)
    then show ?thesis using run[OF x] ModelReply by blast
  next
    case AwaitNext
    let ?x1 = "x\<lparr>toolRound := toolRound x + 1\<rparr>"
    have "resumed r ?x1 s s' \<and> (runs s' r \<noteq> None \<longrightarrow> toolRound x + 1 < MAX_TOOL_ROUNDS)"
    proof (cases rep)
      case (Inl e)
      then have s': "s' = sendMessage_throw r ?x1 e s"
        using assms ModelReply x AwaitNext by (simp add: step_def sendMessage_throw_def)
      have "runs s' r = None" by (simp add: s' sendMessage_throw_def reject_eq)
      then show ?thesis using resumed_throw[of r ?x1 s e] s' by simp
    next
      case (Inr resp)
      then have s': "s' = loop_head r resp ?x1 s"
        using assms ModelReply x AwaitNext by (simp add: step_def)
      show ?thesis using resumed_loop_head[of r ?x1 s resp] loop_head_bound[of r resp ?x1 s] s'
        by simp
    qed
    then show ?thesis using run[OF x, of ?x1] AwaitNext ModelReply by blast
  qed (use assms ModelReply x in \<open>simp_all add: step_def\<close>)
next
  case (WebhookDone r res)
  then obtain x where x: "runs s r = Some x"
    using assms by (auto simp: step_def split: option.splits)
  then have "resumed r x s s'"
    using assms WebhookDone by (auto simp: step_def resumed_text_blocks split: pc.splits)
  then show ?thesis using run[OF x] WebhookDone by blast
next
  case (ToolDone r res)
  then obtain x where x: "runs s r = Some x"
    using assms by (auto simp: step_def split: option.splits)
  then have "resumed r x s s'"
    using assms ToolDone by (auto simp: step_def resumed_tool_done split: pc.splits)
  then show ?thesis using run[OF x] ToolDone by blast
next
  case Immediate
  then show ?thesis using assms immediate by (auto simp: step_def split: list.splits)
next
  case (TimerFired t)
  then show ?thesis using assms timer by (auto simp: step_def split: option.splits if_splits)
next
  case (ResetSession ch)
  then show ?thesis using assms reset by (simp add: step_def)
next
  case (Tick d)
  then show ?thesis using assms tick by (simp add: step_def)
next
  case (MeetingChange ch b)
  then show ?thesis using assms meeting by (simp add: step_def)
qed

lemma getOrInitHistory_frame [simp]:
  "processingLocks (snd (getOrInitHistory ch s)) = processingLocks s"
  "messageQueues (snd (getOrInitHistory ch s)) = messageQueues s"
  "channelNames (snd (getOrInitHistory ch s)) = channelNames s"
  "runs (snd (getOrInitHistory ch s)) = runs s"
  "nextRun (snd (getOrInitHistory ch s)) = nextRun s"
  "immediates (snd (getOrInitHistory ch s)) = immediates s"
  "now (snd (getOrInitHistory ch s)) = now s"
  "promises (snd (getOrInitHistory ch s)) = promises s"
  "nextPromise (snd (getOrInitHistory ch s)) = nextPromise s"
  "meetings (snd (getOrInitHistory ch s)) = meetings s"
  "calls (snd (getOrInitHistory ch s)) = calls s"
  by (simp_all add: getOrInitHistory_def split: option.split)

lemma getOrInitHistory_history:
  "conversationHistory (snd (getOrInitHistory ch s)) = (conversationHistory s)(ch \<mapsto> fst (getOrInitHistory ch s))"
  "fst (getOrInitHistory ch s) = (case conversationHistory s ch of None \<Rightarrow> nextArray s | Some a \<Rightarrow> a)"
  "nextArray (snd (getOrInitHistory ch s)) =
     (case conversationHistory s ch of None \<Rightarrow> Suc (nextArray s) | Some a \<Rightarrow> nextArray s)"
  by (auto simp: getOrInitHistory_def split: option.split)

lemma processMessage_effect:
  "runs (processMessage ch um mc k s) = (runs s)(nextRun s \<mapsto> new_run ch (fst (getOrInitHistory ch s)) k)"
  "nextRun (processMessage ch um mc k s) = Suc (nextRun s)"
  "processingLocks (processMessage ch um mc k s) = processingLocks s"
  "messageQueues (processMessage ch um mc k s) = messageQueues s"
  "immediates (processMessage ch um mc k s) = immediates s"
  "promises (processMessage ch um mc k s) = promises s"
  "nextPromise (processMessage ch um mc k s) = nextPromise s"
  "channelNames (processMessage ch um mc k s) = channelNames s"
  "meetings (processMessage ch um mc k s) = meetings s"
  "now (processMessage ch um mc k s) = now s"
  "conversationHistory (processMessage ch um mc k s) = conversationHistory (snd (getOrInitHistory ch s))"
  "nextArray (processMessage ch um mc k s) = nextArray (snd (getOrInitHistory ch s))"
  "sessionStats (processMessage ch um mc k s) = sessionStats (snd (getOrInitHistory ch s))"
  "timers (processMessage ch um mc k s) = timers (snd (getOrInitHistory ch s))"
  "inactivityTimers (processMessage ch um mc k s) = inactivityTimers (snd (getOrInitHistory ch s))"
  "nextTimer (processMessage ch um mc k s) = nextTimer (snd (getOrInitHistory ch s))"
  by (simp_all add: processMessage_def new_run_def Let_def case_prod_beta)

lemma set_name_frame [simp]:
  "conversationHistory (set_name ch cn s) = conversationHistory s"
  "sessionStats (set_name ch cn s) = sessionStats s"
  "inactivityTimers (set_name ch cn s) = inactivityTimers s"
  "processingLocks (set_name ch cn s) = processingLocks s"
  "messageQueues (set_name ch cn s) = messageQueues s"
  "arrays (set_name ch cn s) = arrays s"
  "nextArray (set_name ch cn s) = nextArray s"
  "runs (set_name ch cn s) = runs s"
  "nextRun (set_name ch cn s) = nextRun s"
  "immediates (set_name ch cn s) = immediates s"
  "timers (set_name ch cn s) = timers s"
  "nextTimer (set_name ch cn s) = nextTimer s"
  "now (set_name ch cn s) = now s"
  "promises (set_name ch cn s) = promises s"
  "nextPromise (set_name ch cn s) = nextPromise s"
  "meetings (set_name ch cn s) = meetings s"
  "calls (set_name ch cn s) = calls s"
  by (simp_all add: set_name_def split: option.split)

lemma sendMessage_locked:
  "ch \<in> processingLocks s \<Longrightarrow>
   sendMessage ch um cn mc k s =
     (set_name ch cn s)\<lparr>messageQueues := (messageQueues s)(ch \<mapsto>
        (case messageQueues s ch of None \<Rightarrow> [] | Some q \<Rightarrow> q)
        @ [\<lparr>userMessage = um, channelName = cn, messageContent = mc, resolve = k\<rparr>])\<rparr>"
  by (simp add: sendMessage_def set_name_def Let_def split: option.split)

lemma sendMessage_unlocked:
  "ch \<notin> processingLocks s \<Longrightarrow>
   sendMessage ch um cn mc k s =
     processMessage ch um mc k ((set_name ch cn s)\<lparr>processingLocks := insert ch (processingLocks s)\<rparr>)"
  by (simp add: sendMessage_def set_name_def Let_def split: option.split)

lemma inv_locks_same:
  "processingLocks s' = processingLocks s \<Longrightarrow> runs s' = runs s \<Longrightarrow> nextRun s' = nextRun s \<Longrightarrow>
   inv_locks s' = inv_locks s"
  by (simp add: inv_locks_def)

lemma inv_locks_init: "inv_locks init"
  by (simp add: inv_locks_def init_def)

lemma inv_locks_resumed:
  assumes inv: "inv_locks s" and run: "runs s r = Some x0" and ch: "channelId x = channelId x0"
    and res: "resumed r x s s'"
  shows "inv_locks s'"
proof (cases "runs s' r")
  case None
  with res have R: "runs s' = (runs s)(r := None)"
    and L: "processingLocks s' = processingLocks s - {channelId x}" and N: "nextRun s' = nextRun s"
    by (simp_all add: resumed_def)
  show ?thesis
    unfolding inv_locks_def
  proof (intro conjI allI impI)
    fix c
    show "c \<in> processingLocks s' \<longleftrightarrow> (\<exists>r x. runs s' r = Some x \<and> channelId x = c)"
    proof (cases "c = channelId x")
      case True
      have "\<not> (\<exists>r1 y. runs s' r1 = Some y \<and> channelId y = c)"
        using inv run ch True R unfolding inv_locks_def
        by (metis fun_upd_apply option.distinct(1))
      then show ?thesis using L True by simp
    next
      case False
      have "(\<exists>r1 y. runs s' r1 = Some y \<and> channelId y = c) \<longleftrightarrow> (\<exists>r1 y. runs s r1 = Some y \<and> channelId y = c)"
        using run ch False R by (metis fun_upd_apply option.inject option.distinct(1))
      then show ?thesis using inv L False unfolding inv_locks_def by simp
    qed
  next
    fix r1 r2 y1 y2
    assume "runs s' r1 = Some y1" "runs s' r2 = Some y2" "channelId y1 = channelId y2"
    then show "r1 = r2"
      using inv R unfolding inv_locks_def by (metis fun_upd_apply option.distinct(1))
  next
    fix r1 assume "nextRun s' \<le> r1"
    then show "runs s' r1 = None" using inv R N unfolding inv_locks_def by simp
  qed
next
  case (Some x')
  with res have R: "runs s' = (runs s)(r \<mapsto> x')" and C: "channelId x' = channelId x0"
    and L: "processingLocks s' = processingLocks s" and N: "nextRun s' = nextRun s"
    using ch by (simp_all add: resumed_def)
  show ?thesis
    unfolding inv_locks_def
  proof (intro conjI allI impI)
    fix c
    have "(\<exists>r1 y. runs s' r1 = Some y \<and> channelId y = c) \<longleftrightarrow> (\<exists>r1 y. runs s r1 = Some y \<and> channelId y = c)"
      using run C R by (metis fun_upd_apply option.inject)
    then show "c \<in> processingLocks s' \<longleftrightarrow> (\<exists>r x. runs s' r = Some x \<and> channelId x = c)"
      using inv L unfolding inv_locks_def by simp
  next
    fix r1 r2 y1 y2
    assume "runs s' r1 = Some y1" "runs s' r2 = Some y2" "channelId y1 = channelId y2"
    then show "r1 = r2"
      using inv R C run unfolding inv_locks_def by (metis fun_upd_apply option.inject)
  next
    fix r1 assume "nextRun s' \<le> r1"
    then show "runs s' r1 = None" using inv R N run unfolding inv_locks_def
      by (metis fun_upd_apply option.distinct(1))
  qed
qed

lemma inv_locks_sendMessage:
  assumes inv: "inv_locks s"
  shows "inv_locks (sendMessage ch um cn mc k s)"
proof (cases "ch \<in> processingLocks s")
  case True
  then show ?thesis using inv by (simp add: sendMessage_locked inv_locks_def)
next
  case False
  let ?s' = "sendMessage ch um cn mc k s"
  obtain x where R: "runs ?s' = (runs s)(nextRun s \<mapsto> x)" and C: "channelId x = ch"
    and L: "processingLocks ?s' = insert ch (processingLocks s)" and N: "nextRun ?s' = Suc (nextRun s)"
    using False by (simp add: sendMessage_unlocked processMessage_effect new_run_def)
  have fresh: "runs s (nextRun s) = None" using inv unfolding inv_locks_def by simp
  have norun: "\<not> (\<exists>r y. runs s r = Some y \<and> channelId y = ch)"
    using inv False unfolding inv_locks_def by blast
  show ?thesis
    unfolding inv_locks_def
  proof (intro conjI allI impI)
    fix c
    show "c \<in> processingLocks ?s' \<longleftrightarrow> (\<exists>r x. runs ?s' r = Some x \<and> channelId x = c)"
    proof (cases "c = ch")
      case True
      then show ?thesis using L R C by auto
    next
      case False
      have "(\<exists>r1 y. runs ?s' r1 = Some y \<and> channelId y = c) \<longleftrightarrow> (\<exists>r1 y. runs s r1 = Some y \<and> channelId y = c)"
        using R C False fresh by (metis fun_upd_apply option.inject option.distinct(1))
      then show ?thesis using inv L False unfolding inv_locks_def by simp
    qed
  next
    fix r1 r2 y1 y2
    assume "runs ?s' r1 = Some y1" "runs ?s' r2 = Some y2" "channelId y1 = channelId y2"
    then show "r1 = r2"
      using inv R C norun unfolding inv_locks_def by (metis fun_upd_apply option.inject)
  next
    fix r1 assume "nextRun ?s' \<le> r1"
    then show "runs ?s' r1 = None" using inv R N unfolding inv_locks_def by simp
  qed
qed

lemma inv_locks_step:
  assumes inv: "inv_locks s" and st: "step ev s = Some s'"
  shows "inv_locks s'"
  using st
proof (cases rule: step_cases)
  case (run r x x1)
  then have "channelId x1 = channelId x" by auto
  then show ?thesis using inv_locks_resumed[OF inv run(1) _ run(2)] by simp
next
  case (send ch um cn mc)
  have "inv_locks (s\<lparr>nextPromise := Suc (nextPromise s)\<rparr>)"
    using inv by (simp add: inv_locks_def)
  then show ?thesis using send inv_locks_sendMessage by simp
next
  case (immediate ch nx rest)
  have "inv_locks (s\<lparr>immediates := rest\<rparr>)" using inv by (simp add: inv_locks_def)
  then show ?thesis using immediate inv_locks_sendMessage by simp
next
  case (timer t deadline ch)
  then have "inv_locks s' = inv_locks s" by (intro inv_locks_same) simp_all
  then show ?thesis using inv by simp
next
  case (reset ch)
  then have "inv_locks s' = inv_locks s" by (intro inv_locks_same) simp_all
  then show ?thesis using inv by simp
next
  case (tick d)
  then have "inv_locks s' = inv_locks s" by (intro inv_locks_same) simp_all
  then show ?thesis using inv by simp
next
  case (meeting ch b)
  then have "inv_locks s' = inv_locks s" by (intro inv_locks_same) simp_all
  then show ?thesis using inv by simp
qed

lemma inv_locks_steps: "inv_locks s \<Longrightarrow> steps evs s = Some s' \<Longrightarrow> inv_locks s'"
  by (induction evs arbitrary: s) (auto split: option.splits dest: inv_locks_step)

lemma inv_arrays_same:
  "conversationHistory s' = conversationHistory s \<Longrightarrow> runs s' = runs s \<Longrightarrow>
   nextArray s' = nextArray s \<Longrightarrow> inv_arrays s' = inv_arrays s"
  by (simp add: inv_arrays_def)

lemma inv_arrays_init: "inv_arrays init"
  by (simp add: inv_arrays_def init_def)

lemma inv_arrays_resumed:
  assumes inv: "inv_arrays s" and run: "runs s r = Some x0" and ch: "channelId x = channelId x0"
    and hi: "history x = history x0" and res: "resumed r x s s'"
  shows "inv_arrays s'"
proof -
  have C: "conversationHistory s' = conversationHistory s" and N: "nextArray s' = nextArray s"
    using res by (simp_all add: resumed_def)
  have sub: "\<And>r1 y. runs s' r1 = Some y \<Longrightarrow>
      \<exists>y0. runs s r1 = Some y0 \<and> channelId y = channelId y0 \<and> history y = history y0"
    using res run ch hi by (cases "runs s' r") (auto simp: resumed_def split: if_splits)
  show ?thesis
    unfolding inv_arrays_def C N
  proof (intro conjI allI impI)
    fix r1 y c assume "runs s' r1 = Some y" "conversationHistory s c = Some (history y)"
    then show "channelId y = c" using sub inv unfolding inv_arrays_def by metis
  next
    fix c1 c2 a assume "conversationHistory s c1 = Some a" "conversationHistory s c2 = Some a"
    then show "c1 = c2" using inv unfolding inv_arrays_def by blast
  next
    fix c a assume "conversationHistory s c = Some a"
    then show "a < nextArray s" using inv unfolding inv_arrays_def by blast
  next
    fix r1 y assume "runs s' r1 = Some y"
    then show "history y < nextArray s" using sub inv unfolding inv_arrays_def by metis
  next
    fix r1 r2 y1 y2 assume "runs s' r1 = Some y1" "runs s' r2 = Some y2" "history y1 = history y2"
    then show "r1 = r2" using sub inv unfolding inv_arrays_def by metis
  qed
qed

lemma inv_arrays_closeSession:
  assumes inv: "inv_arrays s"
  shows "inv_arrays (closeSession ch s)"
proof -
  have C: "conversationHistory (closeSession ch s) = (conversationHistory s)(ch := None)"
    by (auto simp: closeSession_def Let_def fun_upd_idem split: option.split)
  show ?thesis
    using inv unfolding inv_arrays_def C
    by (simp split: if_splits)
qed

lemma upd_run_cases:
  "((m::nat \<rightharpoonup> run)(n \<mapsto> nr)) r = Some y \<Longrightarrow> (r = n \<and> y = nr) \<or> (r \<noteq> n \<and> m r = Some y)"
  by (auto split: if_splits)

lemma inv_arrays_sendMessage:
  assumes inv: "inv_arrays s" and locks: "inv_locks s"
  shows "inv_arrays (sendMessage ch um cn mc k s)"
proof (cases "ch \<in> processingLocks s")
  case True
  then show ?thesis using inv by (simp add: sendMessage_locked inv_arrays_def)
next
  case False
  let ?s' = "sendMessage ch um cn mc k s"
  let ?s0 = "(set_name ch cn s)\<lparr>processingLocks := insert ch (processingLocks s)\<rparr>"
  let ?a = "case conversationHistory s ch of None \<Rightarrow> nextArray s | Some a \<Rightarrow> a"
  have R: "runs ?s' = (runs s)(nextRun s \<mapsto> new_run ch ?a k)"
    and C: "conversationHistory ?s' = (conversationHistory s)(ch \<mapsto> ?a)"
    and N: "nextArray ?s' = (case conversationHistory s ch of None \<Rightarrow> Suc (nextArray s) | Some a \<Rightarrow> nextArray s)"
    using False by (simp_all add: sendMessage_unlocked processMessage_effect getOrInitHistory_history
        split: option.split)
  have fresh: "runs s (nextRun s) = None" using locks unfolding inv_locks_def by simp
  have norun: "\<And>r y. runs s r = Some y \<Longrightarrow> channelId y \<noteq> ch"
    using locks False unfolding inv_locks_def by blast
  have [simp]: "\<And>a. channelId (new_run ch a k) = ch" "\<And>a. history (new_run ch a k) = a"
    by (simp_all add: new_run_def)
  from inv have A1: "\<And>r x c. runs s r = Some x \<Longrightarrow> conversationHistory s c = Some (history x) \<Longrightarrow> channelId x = c"
    and A2: "\<And>c1 c2 a. conversationHistory s c1 = Some a \<Longrightarrow> conversationHistory s c2 = Some a \<Longrightarrow> c1 = c2"
    and A3: "\<And>c a. conversationHistory s c = Some a \<Longrightarrow> a < nextArray s"
    and A4: "\<And>r x. runs s r = Some x \<Longrightarrow> history x < nextArray s"
    and A5: "\<And>r r' x y. runs s r = Some x \<Longrightarrow> runs s r' = Some y \<Longrightarrow> history x = history y \<Longrightarrow> r = r'"
    unfolding inv_arrays_def by blast+
  have A3': "\<And>c. conversationHistory s c \<noteq> Some (nextArray s)"
    using A3 by fastforce
  have A4': "\<And>r x. runs s r = Some x \<Longrightarrow> history x \<noteq> nextArray s"
    using A4 by fastforce
  show ?thesis
  proof (cases "conversationHistory s ch")
    case None
    then have a: "?a = nextArray s" and N': "nextArray ?s' = Suc (nextArray s)"
      using N by simp_all
    show ?thesis
      unfolding inv_arrays_def R C N' a
    proof (intro conjI allI impI)
      fix r1 y c
      assume r: "((runs s)(nextRun s \<mapsto> new_run ch (nextArray s) k)) r1 = Some y"
        and c: "((conversationHistory s)(ch \<mapsto> nextArray s)) c = Some (history y)"
      show "channelId y = c"
      proof (cases "r1 = nextRun s")
        case True
        then have y: "y = new_run ch (nextArray s) k" using r by simp
        then have "c = ch" using c A3' by (cases "c = ch") (simp_all add: new_run_def)
        then show ?thesis using y by (simp add: new_run_def)
      next
        case False
        then have y: "runs s r1 = Some y" using r by simp
        show ?thesis using c A1[OF y] A4'[OF y] by (cases "c = ch") auto
      qed
    next
      fix c1 c2 b
      assume "((conversationHistory s)(ch \<mapsto> nextArray s)) c1 = Some b"
        "((conversationHistory s)(ch \<mapsto> nextArray s)) c2 = Some b"
      then show "c1 = c2"
        using A2 A3' by (cases "c1 = ch"; cases "c2 = ch") auto
    next
      fix c b assume "((conversationHistory s)(ch \<mapsto> nextArray s)) c = Some b"
      then show "b < Suc (nextArray s)"
        using A3 by (cases "c = ch") (auto simp: less_Suc_eq)
    next
      fix r1 y assume r1: "((runs s)(nextRun s \<mapsto> new_run ch (nextArray s) k)) r1 = Some y"
      have hn: "history (new_run ch (nextArray s) k) = nextArray s" by simp
      show "history y < Suc (nextArray s)"
        using upd_run_cases[OF r1] hn by (metis A4 less_Suc_eq)
    next
      fix r1 r2 y1 y2
      assume r1: "((runs s)(nextRun s \<mapsto> new_run ch (nextArray s) k)) r1 = Some y1"
        and r2: "((runs s)(nextRun s \<mapsto> new_run ch (nextArray s) k)) r2 = Some y2"
        and h: "history y1 = history y2"
      have hn: "history (new_run ch (nextArray s) k) = nextArray s" by simp
      show "r1 = r2"
        using upd_run_cases[OF r1] upd_run_cases[OF r2] h hn by (metis A4' A5)
    qed
  next
    case (Some b)
    then have a: "?a = b" and N': "nextArray ?s' = nextArray s"
      and C': "(conversationHistory s)(ch \<mapsto> b) = conversationHistory s"
      using N by auto
    have nob: "\<And>r x. runs s r = Some x \<Longrightarrow> history x \<noteq> b"
      using A1 Some norun by blast
    show ?thesis
      unfolding inv_arrays_def R C N' a C'
    proof (intro conjI allI impI)
      fix r1 y c
      assume r1: "((runs s)(nextRun s \<mapsto> new_run ch b k)) r1 = Some y"
        and c: "conversationHistory s c = Some (history y)"
      have hn: "history (new_run ch b k) = b" "channelId (new_run ch b k) = ch" by simp_all
      show "channelId y = c"
        using upd_run_cases[OF r1] c hn Some by (metis A1 A2)
    next
      fix c1 c2 b'
      assume "conversationHistory s c1 = Some b'" "conversationHistory s c2 = Some b'"
      then show "c1 = c2" using A2 by blast
    next
      fix c b' assume "conversationHistory s c = Some b'"
      then show "b' < nextArray s" using A3 by blast
    next
      fix r1 y assume r1: "((runs s)(nextRun s \<mapsto> new_run ch b k)) r1 = Some y"
      have hn: "history (new_run ch b k) = b" by simp
      show "history y < nextArray s"
        using upd_run_cases[OF r1] hn Some by (metis A3 A4)
    next
      fix r1 r2 y1 y2
      assume r1: "((runs s)(nextRun s \<mapsto> new_run ch b k)) r1 = Some y1"
        and r2: "((runs s)(nextRun s \<mapsto> new_run ch b k)) r2 = Some y2"
        and h: "history y1 = history y2"
      have hn: "history (new_run ch b k) = b" by simp
      show "r1 = r2"
        using upd_run_cases[OF r1] upd_run_cases[OF r2] h hn by (metis nob A5)
    qed
  qed
qed

lemma inv_arrays_step:
  assumes inv: "inv_arrays s" and locks: "inv_locks s" and st: "step ev s = Some s'"
  shows "inv_arrays s'"
  using st
proof (cases rule: step_cases)
  case (run r x x1)
  then have "channelId x1 = channelId x" "history x1 = history x" by auto
  then show ?thesis using inv_arrays_resumed[OF inv run(1) _ _ run(2)] by simp
next
  case (send ch um cn mc)
  have "inv_arrays (s\<lparr>nextPromise := Suc (nextPromise s)\<rparr>)" "inv_locks (s\<lparr>nextPromise := Suc (nextPromise s)\<rparr>)"
    using inv locks by (simp_all add: inv_arrays_def inv_locks_def)
  then show ?thesis using send inv_arrays_sendMessage by simp
next
  case (immediate ch nx rest)
  have "inv_arrays (s\<lparr>immediates := rest\<rparr>)" "inv_locks (s\<lparr>immediates := rest\<rparr>)"
    using inv locks by (simp_all add: inv_arrays_def inv_locks_def)
  then show ?thesis using immediate inv_arrays_sendMessage by simp
next
  case (timer t deadline ch)
  have "inv_arrays (s\<lparr>timers := (timers s)(t := None)\<rparr>)"
    using inv by (simp add: inv_arrays_def)
  then show ?thesis using timer inv_arrays_closeSession by simp
next
  case (reset ch)
  then show ?thesis using inv inv_arrays_closeSession by simp
next
  case (tick d)
  then have "inv_arrays s' = inv_arrays s" by (intro inv_arrays_same) simp_all
  then show ?thesis using inv by simp
next
  case (meeting ch b)
  then have "inv_arrays s' = inv_arrays s" by (intro inv_arrays_same) simp_all
  then show ?thesis using inv by simp
qed

lemma inv_steps:
  "inv_locks s \<Longrightarrow> inv_arrays s \<Longrightarrow> steps evs s = Some s' \<Longrightarrow> inv_locks s' \<and> inv_arrays s'"
proof (induction evs arbitrary: s)
  case Nil
  then show ?case by simp
next
  case (Cons ev evs)
  then obtain s1 where s1: "step ev s = Some s1" and rest: "steps evs s1 = Some s'"
    by (auto split: option.splits)
  show ?case
    using Cons.IH[OF inv_locks_step[OF Cons.prems(1) s1] inv_arrays_step[OF Cons.prems(2,1) s1] rest] .
qed

lemma inv_fresh_same:
  "promises s' = promises s \<Longrightarrow> runs s' = runs s \<Longrightarrow> messageQueues s' = messageQueues s \<Longrightarrow>
   immediates s' = immediates s \<Longrightarrow> nextPromise s' = nextPromise s \<Longrightarrow> inv_fresh s' = inv_fresh s"
  by (simp add: inv_fresh_def)

lemma inv_promise_same:
  "promises s' = promises s \<Longrightarrow> runs s' = runs s \<Longrightarrow> nextPromise s' = nextPromise s \<Longrightarrow>
   inv_promise p s' = inv_promise p s"
  by (simp add: inv_promise_def)

lemma inv_fresh_init: "inv_fresh init"
  by (simp add: inv_fresh_def init_def)

lemma resumed_runs:
  assumes "resumed r x s s'" and "runs s r = Some x0" and "caller x = caller x0"
    and "runs s' r1 = Some y"
  shows "\<exists>y0. runs s r1 = Some y0 \<and> caller y = caller y0"
  using assms by (cases "runs s' r") (auto simp: resumed_def split: if_splits)

lemma resumed_promises:
  assumes "resumed r x s s'"
  shows "promises s' = promises s \<or>
         (\<exists>out. promises s' = (promises s)(target (caller x) \<mapsto> out) \<and>
            ((\<exists>e. out = Rejected e) \<longrightarrow> is_outside (caller x)))"
proof (cases "runs s' r")
  case (Some x')
  then show ?thesis using assms by (simp add: resumed_def)
next
  case None
  then have "(\<exists>e. promises s' = promises (reject (caller x) e s)) \<or>
             (\<exists>v. promises s' = promises (fulfil (caller x) v s))"
    using assms by (auto simp: resumed_def)
  then show ?thesis
  proof (elim disjE exE)
    fix e assume "promises s' = promises (reject (caller x) e s)"
    then have "promises s' = (promises s)(target (caller x) \<mapsto>
        (if is_outside (caller x) then Rejected e else Resolved (''Error: '' @ message_of e)))"
      by (simp add: reject_eq)
    then show ?thesis by (intro disjI2 exI conjI) (auto split: if_splits)
  next
    fix v assume "promises s' = promises (fulfil (caller x) v s)"
    then have "promises s' = (promises s)(target (caller x) \<mapsto> Resolved v)"
      by (simp add: fulfil_eq)
    then show ?thesis by (intro disjI2 exI conjI) auto
  qed
qed

lemma resumed_queues:
  assumes "resumed r x s s'"
  shows "(messageQueues s' = messageQueues s \<and> immediates s' = immediates s) \<or>
         (\<exists>nx queue. messageQueues s (channelId x) = Some (nx # queue) \<and>
            messageQueues s' = (messageQueues s)(channelId x \<mapsto> queue) \<and>
            immediates s' = immediates s @ [(channelId x, nx)])"
  using assms by (cases "runs s' r") (auto simp: resumed_def split: option.splits list.splits)

lemma inv_fresh_resumed:
  assumes inv: "inv_fresh s" and run: "runs s r = Some x0" and ca: "caller x = caller x0"
    and res: "resumed r x s s'"
  shows "inv_fresh s'"
proof -
  from inv have F1: "\<And>p. promises s p \<noteq> None \<Longrightarrow> p < nextPromise s"
    and F2: "\<And>r x. runs s r = Some x \<Longrightarrow> target (caller x) < nextPromise s"
    and F3: "\<And>ch q e. messageQueues s ch = Some q \<Longrightarrow> e \<in> set q \<Longrightarrow> target (resolve e) < nextPromise s"
    and F4: "\<And>ch e. (ch, e) \<in> set (immediates s) \<Longrightarrow> target (resolve e) < nextPromise s"
    unfolding inv_fresh_def by blast+
  have N: "nextPromise s' = nextPromise s" using res by (simp add: resumed_def)
  have t: "target (caller x) < nextPromise s" using F2[OF run] ca by simp
  show ?thesis
    unfolding inv_fresh_def N
  proof (intro conjI allI impI)
    fix p assume "promises s' p \<noteq> None"
    then show "p < nextPromise s"
      using resumed_promises[OF res] F1 t by (auto split: if_splits)
  next
    fix r1 y assume "runs s' r1 = Some y"
    then show "target (caller y) < nextPromise s"
      using resumed_runs[OF res run ca] F2 by metis
  next
    fix ch q e assume q: "messageQueues s' ch = Some q" and e: "e \<in> set q"
    from resumed_queues[OF res] show "target (resolve e) < nextPromise s"
    proof (elim disjE conjE exE)
      assume "messageQueues s' = messageQueues s"
      then show ?thesis using q e F3 by simp
    next
      fix nx queue
      assume a: "messageQueues s (channelId x) = Some (nx # queue)"
        and b: "messageQueues s' = (messageQueues s)(channelId x \<mapsto> queue)"
      show ?thesis
      proof (cases "ch = channelId x")
        case True
        then have "e \<in> set (nx # queue)" using q e b by simp
        then show ?thesis using F3[OF a] by blast
      next
        case False
        then show ?thesis using q e b F3 by simp
      qed
    qed
  next
    fix ch e assume i: "(ch, e) \<in> set (immediates s')"
    from resumed_queues[OF res] show "target (resolve e) < nextPromise s"
    proof (elim disjE conjE exE)
      assume "immediates s' = immediates s"
      then show ?thesis using i F4 by simp
    next
      fix nx queue
      assume a: "messageQueues s (channelId x) = Some (nx # queue)"
        and c: "immediates s' = immediates s @ [(channelId x, nx)]"
      have "nx \<in> set (nx # queue)" by simp
      from F3[OF a this] show ?thesis using i c F4 by auto
    qed
  qed
qed

lemma inv_fresh_sendMessage:
  assumes inv: "inv_fresh s" and k: "target k < nextPromise s"
  shows "inv_fresh (sendMessage ch um cn mc k s)"
proof -
  from inv have F1: "\<And>p. promises s p \<noteq> None \<Longrightarrow> p < nextPromise s"
    and F2: "\<And>r x. runs s r = Some x \<Longrightarrow> target (caller x) < nextPromise s"
    and F3: "\<And>ch q e. messageQueues s ch = Some q \<Longrightarrow> e \<in> set q \<Longrightarrow> target (resolve e) < nextPromise s"
    and F4: "\<And>ch e. (ch, e) \<in> set (immediates s) \<Longrightarrow> target (resolve e) < nextPromise s"
    unfolding inv_fresh_def by blast+
  show ?thesis
  proof (cases "ch \<in> processingLocks s")
    case True
    let ?e = "\<lparr>userMessage = um, channelName = cn, messageContent = mc, resolve = k\<rparr>"
    let ?q = "case messageQueues s ch of None \<Rightarrow> [] | Some q \<Rightarrow> q"
    have q: "\<And>e. e \<in> set ?q \<Longrightarrow> target (resolve e) < nextPromise s"
      using F3[of ch] by (cases "messageQueues s ch") auto
    have s': "sendMessage ch um cn mc k s = (set_name ch cn s)\<lparr>messageQueues := (messageQueues s)(ch \<mapsto> ?q @ [?e])\<rparr>"
      using True by (simp add: sendMessage_locked)
    show ?thesis
      unfolding inv_fresh_def s'
    proof (intro conjI allI impI)
      fix c q' e
      assume a: "messageQueues ((set_name ch cn s)\<lparr>messageQueues := (messageQueues s)(ch \<mapsto> ?q @ [?e])\<rparr>) c = Some q'"
        and e: "e \<in> set q'"
      show "target (resolve e) < nextPromise ((set_name ch cn s)\<lparr>messageQueues := (messageQueues s)(ch \<mapsto> ?q @ [?e])\<rparr>)"
      proof (cases "c = ch")
        case True
        then have "e \<in> set ?q \<or> e = ?e" using a e by auto
        then show ?thesis using q k by auto
      next
        case False
        then show ?thesis using a e F3 by simp
      qed
    qed (use F1 F2 F4 in simp_all)
  next
    case False
    have s': "sendMessage ch um cn mc k s =
      processMessage ch um mc k ((set_name ch cn s)\<lparr>processingLocks := insert ch (processingLocks s)\<rparr>)"
      using False by (simp add: sendMessage_unlocked)
    show ?thesis
      unfolding inv_fresh_def s' processMessage_effect
    proof (intro conjI allI impI)
      fix r x
      assume "((runs ((set_name ch cn s)\<lparr>processingLocks := insert ch (processingLocks s)\<rparr>))
          (nextRun ((set_name ch cn s)\<lparr>processingLocks := insert ch (processingLocks s)\<rparr>) \<mapsto>
           new_run ch (fst (getOrInitHistory ch ((set_name ch cn s)\<lparr>processingLocks := insert ch (processingLocks s)\<rparr>))) k)) r = Some x"
      then have "x = new_run ch (fst (getOrInitHistory ch ((set_name ch cn s)\<lparr>processingLocks := insert ch (processingLocks s)\<rparr>))) k
          \<or> runs s r = Some x"
        by (auto split: if_splits)
      then show "target (caller x) < nextPromise ((set_name ch cn s)\<lparr>processingLocks := insert ch (processingLocks s)\<rparr>)"
        using F2 k by (auto simp: new_run_def)
    qed (use F1 F3 F4 in simp_all)
  qed
qed

lemma inv_fresh_step:
  assumes inv: "inv_fresh s" and st: "step ev s = Some s'"
  shows "inv_fresh s'"
  using st
proof (cases rule: step_cases)
  case (run r x x1)
  then have "caller x1 = caller x" by auto
  then show ?thesis using inv_fresh_resumed[OF inv run(1) _ run(2)] by simp
next
  case (send ch um cn mc)
  have "inv_fresh (s\<lparr>nextPromise := Suc (nextPromise s)\<rparr>)"
    using inv by (auto simp: inv_fresh_def less_Suc_eq)
  then show ?thesis using send inv_fresh_sendMessage by simp
next
  case (immediate ch nx rest)
  have "inv_fresh (s\<lparr>immediates := rest\<rparr>)" "target (DrainCallback (resolve nx)) < nextPromise s"
    using inv immediate(2) by (auto simp: inv_fresh_def)
  then show ?thesis using immediate inv_fresh_sendMessage by simp
next
  case (timer t deadline ch)
  then have "inv_fresh s' = inv_fresh s" by (intro inv_fresh_same) simp_all
  then show ?thesis using inv by simp
next
  case (reset ch)
  then have "inv_fresh s' = inv_fresh s" by (intro inv_fresh_same) simp_all
  then show ?thesis using inv by simp
next
  case (tick d)
  then have "inv_fresh s' = inv_fresh s" by (intro inv_fresh_same) simp_all
  then show ?thesis using inv by simp
next
  case (meeting ch b)
  then have "inv_fresh s' = inv_fresh s" by (intro inv_fresh_same) simp_all
  then show ?thesis using inv by simp
qed

lemma inv_fresh_steps: "inv_fresh s \<Longrightarrow> steps evs s = Some s' \<Longrightarrow> inv_fresh s'"
  by (induction evs arbitrary: s) (auto split: option.splits dest: inv_fresh_step)

lemma inv_promise_resumed:
  assumes inv: "inv_promise p s" and run: "runs s r = Some x0" and ca: "caller x = caller x0"
    and res: "resumed r x s s'"
  shows "inv_promise p s'"
proof -
  from inv have P1: "p < nextPromise s" and P2: "\<And>e. promises s p \<noteq> Some (Rejected e)"
    and P3: "\<And>r x. runs s r = Some x \<Longrightarrow> target (caller x) = p \<Longrightarrow> \<not> is_outside (caller x)"
    unfolding inv_promise_def by blast+
  have N: "nextPromise s' = nextPromise s" using res by (simp add: resumed_def)
  show ?thesis
    unfolding inv_promise_def N
  proof (intro conjI allI impI)
    show "p < nextPromise s" by (rule P1)
  next
    fix e
    from resumed_promises[OF res] show "promises s' p \<noteq> Some (Rejected e)"
    proof (elim disjE exE conjE)
      assume "promises s' = promises s"
      then show ?thesis using P2 by simp
    next
      fix out
      assume a: "promises s' = (promises s)(target (caller x) \<mapsto> out)"
        and b: "(\<exists>e. out = Rejected e) \<longrightarrow> is_outside (caller x)"
      show ?thesis
      proof (cases "target (caller x) = p")
        case True
        then have "\<not> is_outside (caller x)" using P3[OF run] ca by simp
        then have "out \<noteq> Rejected e" using b by blast
        then show ?thesis using a True by simp
      next
        case False
        then show ?thesis using a P2 by simp
      qed
    qed
  next
    fix r1 y assume "runs s' r1 = Some y" "target (caller y) = p"
    then show "\<not> is_outside (caller y)"
      using resumed_runs[OF res run ca] P3 by metis
  qed
qed

lemma inv_promise_sendMessage:
  assumes inv: "inv_promise p s" and k: "target k = p \<longrightarrow> \<not> is_outside k"
  shows "inv_promise p (sendMessage ch um cn mc k s)"
proof (cases "ch \<in> processingLocks s")
  case True
  then show ?thesis using inv by (simp add: sendMessage_locked inv_promise_def)
next
  case False
  then show ?thesis using inv k
    by (auto simp: sendMessage_unlocked processMessage_effect new_run_def inv_promise_def split: if_splits)
qed

lemma inv_promise_step:
  assumes inv: "inv_promise p s" and st: "step ev s = Some s'"
  shows "inv_promise p s'"
  using st
proof (cases rule: step_cases)
  case (run r x x1)
  then have "caller x1 = caller x" by auto
  then show ?thesis using inv_promise_resumed[OF inv run(1) _ run(2)] by simp
next
  case (send ch um cn mc)
  have "inv_promise p (s\<lparr>nextPromise := Suc (nextPromise s)\<rparr>)"
    "target (Outside (nextPromise s)) \<noteq> p"
    using inv by (auto simp: inv_promise_def)
  then show ?thesis using send inv_promise_sendMessage by simp
next
  case (immediate ch nx rest)
  have "inv_promise p (s\<lparr>immediates := rest\<rparr>)"
    using inv by (auto simp: inv_promise_def)
  then show ?thesis using immediate inv_promise_sendMessage by simp
next
  case (timer t deadline ch)
  then have "inv_promise p s' = inv_promise p s" by (intro inv_promise_same) simp_all
  then show ?thesis using inv by simp
next
  case (reset ch)
  then have "inv_promise p s' = inv_promise p s" by (intro inv_promise_same) simp_all
  then show ?thesis using inv by simp
next
  case (tick d)
  then have "inv_promise p s' = inv_promise p s" by (intro inv_promise_same) simp_all
  then show ?thesis using inv by simp
next
  case (meeting ch b)
  then have "inv_promise p s' = inv_promise p s" by (intro inv_promise_same) simp_all
  then show ?thesis using inv by simp
qed

lemma inv_promise_steps: "inv_promise p s \<Longrightarrow> steps evs s = Some s' \<Longrightarrow> inv_promise p s'"
  by (induction evs arbitrary: s) (auto split: option.splits dest: inv_promise_step)

lemma inv_promise_enqueue:
  assumes inv: "inv_fresh s" and l: "ch \<in> processingLocks s"
  shows "inv_promise (nextPromise s)
           (sendMessage ch um cn mc (Outside (nextPromise s)) (s\<lparr>nextPromise := Suc (nextPromise s)\<rparr>))"
proof -
  from inv have F1: "promises s (nextPromise s) = None"
    and F2: "\<And>r x. runs s r = Some x \<Longrightarrow> target (caller x) \<noteq> nextPromise s"
    unfolding inv_fresh_def by fastforce+
  show ?thesis using l F1 F2 by (simp add: sendMessage_locked inv_promise_def)
qed



lemma push_arrays [simp]: "arrays (push a m s) = (arrays s)(a := arrays s a @ [m])"
  by (simp add: push_def)

lemma finish_effect:
  "runs (finish r resp x s) = (runs s)(r := None)"
  "processingLocks (finish r resp x s) = processingLocks s - {channelId x}"
  "sessionStats (finish r resp x s) = sessionStats (addCost (channelId x) (cost_of resp) s)"
  "promises (finish r resp x s) = (promises s)(target (caller x) \<mapsto> Resolved (assistantText x))"
  "arrays (finish r resp x s) = (arrays s)(history x := arrays s (history x) @
      [\<lparr>msg_role = Assistant, msg_content = Blocks (content resp)\<rparr>])"
  "calls (finish r resp x s) = calls s"
  by (simp_all add: finish_def sendMessage_return_def fulfil_eq Let_def
      split: option.split list.split)








section \<open>Evaluation of traces\<close>

lemmas run_simps = init_def step_def sendMessage_def processMessage_def getOrInitHistory_def
  resetInactivityTimer_def push_def loop_head_def after_blocks_def finish_def addCost_def
  sendMessage_return_def sendMessage_throw_def tool_done_def closeSession_def cost_of_def
  isGoogleMeet_def startsWith_def trim_def toUpperCase_def toUpperCaseChar_def isWhiteSpace_def
  MAX_TOOL_ROUNDS_def INACTIVITY_TIMEOUT_MS_def Let_def

section \<open>The processing lock\<close>

text \<open>
  C1.  In every state that the event loop reaches from the initial one, no two suspended
  runs belong to the same channel, a channel is locked exactly when a run of it is in
  flight, no two runs in flight hold the same history array, and \<open>sendMessage\<close> on a
  locked channel starts no run: it leaves the runs, the locks and the histories as they
  are and appends the message to the channel's queue.
\<close>

theorem one_run_per_channel:
  assumes "steps evs init = Some s"
  shows "(\<forall>r r' x y. runs s r = Some x \<longrightarrow> runs s r' = Some y \<longrightarrow> channelId x = channelId y \<longrightarrow> r = r')
    \<and> (\<forall>ch. ch \<in> processingLocks s \<longleftrightarrow> (\<exists>r x. runs s r = Some x \<and> channelId x = ch))
    \<and> (\<forall>r r' x y. runs s r = Some x \<longrightarrow> runs s r' = Some y \<longrightarrow> history x = history y \<longrightarrow> r = r')
    \<and> (\<forall>ch um cn mc. ch \<in> processingLocks s \<longrightarrow>
          (\<exists>s'. step (SendMessage ch um cn mc) s = Some s' \<and> runs s' = runs s \<and>
             processingLocks s' = processingLocks s \<and> arrays s' = arrays s \<and>
             messageQueues s' ch = Some ((case messageQueues s ch of None \<Rightarrow> [] | Some q \<Rightarrow> q) @
               [\<lparr>userMessage = um, channelName = cn, messageContent = mc,
                 resolve = Outside (nextPromise s)\<rparr>])))"
proof -
  have "inv_locks s \<and> inv_arrays s"
    using inv_steps[OF inv_locks_init inv_arrays_init assms] .
  then show ?thesis
    unfolding inv_locks_def inv_arrays_def
    by (simp add: step_def sendMessage_locked)
qed

theorem one_run_per_channel_witness:
  "\<exists>s. steps [SendMessage ''c'' ''A'' None None, SendMessage ''c'' ''B'' None None] init = Some s \<and>
       processingLocks s = {''c''} \<and>
       (\<forall>r r' x y. runs s r = Some x \<longrightarrow> runs s r' = Some y \<longrightarrow> channelId x = channelId y \<longrightarrow> r = r')"
proof -
  let ?tr = "[SendMessage ''c'' ''A'' None None, SendMessage ''c'' ''B'' None None]"
  have h: "steps ?tr init = Some (the (steps ?tr init))"
    by (simp add: run_simps)
  have l: "processingLocks (the (steps ?tr init)) = {''c''}"
    by (simp add: run_simps)
  have u: "\<forall>r r' x y. runs (the (steps ?tr init)) r = Some x \<longrightarrow> runs (the (steps ?tr init)) r' = Some y
      \<longrightarrow> channelId x = channelId y \<longrightarrow> r = r'"
    using one_run_per_channel[OF h] by (rule conjunct1)
  show ?thesis
    by (rule exI[of _ "the (steps ?tr init)"]) (intro conjI h l u)
qed

text \<open>
  C2.  A run fails while a message is queued: \<open>A\<close> is being processed, \<open>B\<close> arrives and
  is queued, and the model call of \<open>A\<close> throws.  The lock is released and the caller of
  \<open>A\<close> sees the rejection, but \<open>B\<close> stays in the queue: no run is in flight, no
  \<open>setImmediate\<close> callback is pending, and the promise of \<open>B\<close> is not settled.  Had the
  model call returned, \<open>B\<close> would have been taken from the queue and scheduled.
\<close>

theorem failed_run_strands_queue:
  "\<exists>s s1. steps [SendMessage ''c'' ''A'' None None, SendMessage ''c'' ''B'' None None,
              ModelReply 0 (Inl (Error ''boom''))] init = Some s \<and>
       processingLocks s = {} \<and> runs s = Map.empty \<and> immediates s = [] \<and>
       step Immediate s = None \<and>
       messageQueues s ''c'' = Some [\<lparr>userMessage = ''B'', channelName = None,
          messageContent = None, resolve = Outside 1\<rparr>] \<and>
       promises s 0 = Some (Rejected (Error ''boom'')) \<and> promises s 1 = None \<and>
       steps [SendMessage ''c'' ''A'' None None, SendMessage ''c'' ''B'' None None,
              ModelReply 0 (Inr \<lparr>content = [], input_tokens = 0, output_tokens = 0\<rparr>)] init = Some s1 \<and>
       processingLocks s1 = {} \<and> messageQueues s1 ''c'' = Some [] \<and>
       immediates s1 = [(''c'', \<lparr>userMessage = ''B'', channelName = None,
          messageContent = None, resolve = Outside 1\<rparr>)]"
  apply (rule exI[of _ "the (steps [SendMessage ''c'' ''A'' None None, SendMessage ''c'' ''B'' None None,
              ModelReply 0 (Inl (Error ''boom''))] init)"])
  apply (rule exI[of _ "the (steps [SendMessage ''c'' ''A'' None None, SendMessage ''c'' ''B'' None None,
              ModelReply 0 (Inr \<lparr>content = [], input_tokens = 0, output_tokens = 0\<rparr>)] init)"])
  apply (simp add: run_simps)
  done

text \<open>
  C4.  A message overtakes a queued one.  \<open>R\<close> is being processed and \<open>A\<close> is queued;
  the run of \<open>R\<close> ends, which releases the lock and hands \<open>A\<close> to \<open>setImmediate\<close>;
  before that callback runs, a route handler submits \<open>C\<close>, which finds the channel
  unlocked and starts its run; the callback then finds the channel locked and queues
  \<open>A\<close> again.  \<open>A\<close> was submitted before \<open>C\<close> and before its own processing began,
  and the history holds the turn of \<open>C\<close> before the turn of \<open>A\<close>.
\<close>

theorem arrival_order_broken:
  "\<exists>s0 s. steps [SendMessage ''c'' ''R'' None None, SendMessage ''c'' ''A'' None None,
                ModelReply 0 (Inr \<lparr>content = [TextBlock ''r''], input_tokens = 0, output_tokens = 0\<rparr>)] init = Some s0 \<and>
       runs s0 = Map.empty \<and> map (userMessage \<circ> snd) (immediates s0) = [''A''] \<and>
       steps [SendMessage ''c'' ''C'' None None, Immediate,
              ModelReply 1 (Inr \<lparr>content = [TextBlock ''c''], input_tokens = 0, output_tokens = 0\<rparr>),
              Immediate,
              ModelReply 2 (Inr \<lparr>content = [TextBlock ''a''], input_tokens = 0, output_tokens = 0\<rparr>)] s0 = Some s \<and>
       conversationHistory s ''c'' = Some 0 \<and>
       map msg_content (arrays s 0) =
         [Str ''R'', Blocks [TextBlock ''r''], Str ''C'', Blocks [TextBlock ''c''],
          Str ''A'', Blocks [TextBlock ''a'']] \<and>
       promises s 1 = Some (Resolved ''a'') \<and> promises s 2 = Some (Resolved ''c'')"
  apply (rule exI[of _ "the (steps [SendMessage ''c'' ''R'' None None, SendMessage ''c'' ''A'' None None,
                ModelReply 0 (Inr \<lparr>content = [TextBlock ''r''], input_tokens = 0, output_tokens = 0\<rparr>)] init)"])
  apply (rule exI[of _ "the (steps [SendMessage ''c'' ''R'' None None, SendMessage ''c'' ''A'' None None,
                ModelReply 0 (Inr \<lparr>content = [TextBlock ''r''], input_tokens = 0, output_tokens = 0\<rparr>),
              SendMessage ''c'' ''C'' None None, Immediate,
              ModelReply 1 (Inr \<lparr>content = [TextBlock ''c''], input_tokens = 0, output_tokens = 0\<rparr>),
              Immediate,
              ModelReply 2 (Inr \<lparr>content = [TextBlock ''a''], input_tokens = 0, output_tokens = 0\<rparr>)] init)"])
  apply (simp add: run_simps)
  done



section \<open>The idle timer\<close>




section \<open>Cost accounting\<close>




section \<open>Tool failures\<close>

lemma tool_batch:
  assumes "runs s r = Some x" and "pc x = AwaitTool t ts trs"
  shows "\<exists>s1. steps (ToolDone r res # map (\<lambda>u. ToolDone r (Inr [])) ts) s = Some s1 \<and>
           runs s1 r = Some (x\<lparr>pc := AwaitNext\<rparr>) \<and>
           arrays s1 (history x) = arrays s (history x) @
             [\<lparr>msg_role = User, msg_content = Results (trs @
                (case res of Inr result \<Rightarrow> ToolResult (tool_use_id t) result False
                 | Inl e \<Rightarrow> ToolResult (tool_use_id t) (''Error: '' @ message_of e) True)
                # map (\<lambda>u. ToolResult (tool_use_id u) [] False) ts)\<rparr>] \<and>
           last (calls s1) = ModelCall r False (arrays s1 (history x))"
  using assms
proof (induction ts arbitrary: s x t trs res)
  case Nil
  then show ?case
    by (simp add: step_def tool_done_def Let_def)
next
  case (Cons t1 ts1)
  let ?tr = "case res of Inr result \<Rightarrow> ToolResult (tool_use_id t) result False
                 | Inl e \<Rightarrow> ToolResult (tool_use_id t) (''Error: '' @ message_of e) True"
  let ?x' = "x\<lparr>pc := AwaitTool t1 ts1 (trs @ [?tr])\<rparr>"
  let ?s' = "s\<lparr>runs := (runs s)(r \<mapsto> ?x'),
               calls := calls s @ [ToolCall r (tool_name t1) (tool_input t1) (channelId x)]\<rparr>"
  have st: "step (ToolDone r res) s = Some ?s'"
    using Cons.prems by (simp add: step_def tool_done_def Let_def)
  have a: "runs ?s' r = Some ?x'" and b: "pc ?x' = AwaitTool t1 ts1 (trs @ [?tr])" by simp_all
  from Cons.IH[OF a b, of "Inr []"] obtain s1 where
    s1: "steps (ToolDone r (Inr []) # map (\<lambda>u. ToolDone r (Inr [])) ts1) ?s' = Some s1"
    and r1: "runs s1 r = Some (?x'\<lparr>pc := AwaitNext\<rparr>)"
    and h1: "arrays s1 (history ?x') = arrays ?s' (history ?x') @
             [\<lparr>msg_role = User, msg_content = Results ((trs @ [?tr]) @
                ToolResult (tool_use_id t1) [] False
                # map (\<lambda>u. ToolResult (tool_use_id u) [] False) ts1)\<rparr>]"
    and c1: "last (calls s1) = ModelCall r False (arrays s1 (history ?x'))"
    by auto
  have "steps (ToolDone r res # map (\<lambda>u. ToolDone r (Inr [])) (t1 # ts1)) s = Some s1"
    using st s1 by simp
  moreover have "runs s1 r = Some (x\<lparr>pc := AwaitNext\<rparr>)" using r1 by simp
  moreover have "arrays s1 (history x) = arrays s (history x) @
             [\<lparr>msg_role = User, msg_content = Results (trs @ ?tr
                # map (\<lambda>u. ToolResult (tool_use_id u) [] False) (t1 # ts1))\<rparr>]"
    using h1 by simp
  moreover have "last (calls s1) = ModelCall r False (arrays s1 (history x))" using c1 by simp
  ultimately show ?case by blast
qed

lemma final_reply_ends:
  assumes "runs s r = Some x" and "pc x = AwaitNext"
  shows "\<exists>s2. step (ModelReply r (Inr \<lparr>content = [], input_tokens = i, output_tokens = j\<rparr>)) s = Some s2 \<and>
          runs s2 r = None \<and> promises s2 (target (caller x)) = Some (Resolved (assistantText x))"
  using assms
  by (simp add: step_def loop_head_def after_blocks_def finish_effect)

text \<open>
  C7.  A run is waiting for a tool (\<open>t\<close>, with the tool calls \<open>ts\<close> still to execute
  and the results \<open>trs\<close> so far) and the tool throws \<open>e\<close>.  The run goes on: once the
  other tools of the batch have returned, the run waits for the model again, the history
  has grown by one user turn holding the results of the batch, among them the result of
  \<open>t\<close> with the content \<open>Error: \<close> and the message and \<open>is_error\<close> set, the model
  call just made carries that history, and a response without tool calls then ends the
  run and resolves its caller with the accumulated text.
\<close>

theorem tool_error_contained:
  assumes "runs s r = Some x" and "pc x = AwaitTool t ts trs"
  shows "\<exists>s1 x1 s2.
           steps (ToolDone r (Inl e) # map (\<lambda>u. ToolDone r (Inr [])) ts) s = Some s1 \<and>
           runs s1 r = Some x1 \<and> pc x1 = AwaitNext \<and>
           arrays s1 (history x) = arrays s (history x) @
             [\<lparr>msg_role = User, msg_content = Results (trs @
                ToolResult (tool_use_id t) (''Error: '' @ message_of e) True
                # map (\<lambda>u. ToolResult (tool_use_id u) [] False) ts)\<rparr>] \<and>
           last (calls s1) = ModelCall r False (arrays s1 (history x)) \<and>
           step (ModelReply r (Inr \<lparr>content = [], input_tokens = i, output_tokens = j\<rparr>)) s1 = Some s2 \<and>
           runs s2 r = None \<and>
           promises s2 (target (caller x)) = Some (Resolved (assistantText x))"
proof -
  from tool_batch[OF assms, of "Inl e"] obtain s1 where
    a: "steps (ToolDone r (Inl e) # map (\<lambda>u. ToolDone r (Inr [])) ts) s = Some s1"
    and b: "runs s1 r = Some (x\<lparr>pc := AwaitNext\<rparr>)"
    and c: "arrays s1 (history x) = arrays s (history x) @
             [\<lparr>msg_role = User, msg_content = Results (trs @
                ToolResult (tool_use_id t) (''Error: '' @ message_of e) True
                # map (\<lambda>u. ToolResult (tool_use_id u) [] False) ts)\<rparr>]"
    and d: "last (calls s1) = ModelCall r False (arrays s1 (history x))"
    by auto
  from final_reply_ends[OF b, of i j] obtain s2 where
    f: "step (ModelReply r (Inr \<lparr>content = [], input_tokens = i, output_tokens = j\<rparr>)) s1 = Some s2"
    and g: "runs s2 r = None"
    and h: "promises s2 (target (caller x)) = Some (Resolved (assistantText x))"
    by auto
  show ?thesis
    using a b c d f g h by (intro exI[of _ s1] exI[of _ "x\<lparr>pc := AwaitNext\<rparr>"] exI[of _ s2]) simp
qed

theorem tool_error_contained_witness:
  "\<exists>s x s1 s2.
     steps [SendMessage ''c'' ''A'' None None,
            ModelReply 0 (Inr \<lparr>content = [ToolUse ''t1'' ''server_exec'' ''ls''],
                               input_tokens = 1, output_tokens = 1\<rparr>)] init = Some s \<and>
     runs s 0 = Some x \<and> pc x = AwaitTool (ToolUse ''t1'' ''server_exec'' ''ls'') [] [] \<and>
     steps [ToolDone 0 (Inl (Error ''ssh failed''))] s = Some s1 \<and>
     map_option pc (runs s1 0) = Some AwaitNext \<and>
     arrays s1 (history x) = arrays s (history x) @
       [\<lparr>msg_role = User, msg_content = Results [ToolResult ''t1'' ''Error: ssh failed'' True]\<rparr>] \<and>
     last (calls s1) = ModelCall 0 False (arrays s1 (history x)) \<and>
     step (ModelReply 0 (Inr \<lparr>content = [], input_tokens = 0, output_tokens = 0\<rparr>)) s1 = Some s2 \<and>
     runs s2 0 = None \<and> promises s2 (target (caller x)) = Some (Resolved (assistantText x))"
proof -
  let ?s = "the (steps [SendMessage ''c'' ''A'' None None,
            ModelReply 0 (Inr \<lparr>content = [ToolUse ''t1'' ''server_exec'' ''ls''],
                               input_tokens = 1, output_tokens = 1\<rparr>)] init)"
  let ?x = "the (runs ?s 0)"
  have a: "steps [SendMessage ''c'' ''A'' None None,
            ModelReply 0 (Inr \<lparr>content = [ToolUse ''t1'' ''server_exec'' ''ls''],
                               input_tokens = 1, output_tokens = 1\<rparr>)] init = Some ?s"
    by (simp add: run_simps)
  have x: "runs ?s 0 = Some ?x"
    by (simp add: run_simps)
  have p: "pc ?x = AwaitTool (ToolUse ''t1'' ''server_exec'' ''ls'') [] []"
    by (simp add: run_simps)
  from tool_error_contained[OF x p, of "Error ''ssh failed''" 0 0]
  obtain s1 x1 s2 where
    b: "steps (ToolDone 0 (Inl (Error ''ssh failed'')) # map (\<lambda>u. ToolDone 0 (Inr [])) ([]::block list)) ?s = Some s1"
    and c: "runs s1 0 = Some x1" and d: "pc x1 = AwaitNext"
    and e: "arrays s1 (history ?x) = arrays ?s (history ?x) @
             [\<lparr>msg_role = User, msg_content = Results ([] @
                ToolResult (tool_use_id (ToolUse ''t1'' ''server_exec'' ''ls'')) (''Error: '' @ message_of (Error ''ssh failed'')) True
                # map (\<lambda>u. ToolResult (tool_use_id u) [] False) [])\<rparr>]"
    and f: "last (calls s1) = ModelCall 0 False (arrays s1 (history ?x))"
    and g: "step (ModelReply 0 (Inr \<lparr>content = [], input_tokens = 0, output_tokens = 0\<rparr>)) s1 = Some s2"
    and h: "runs s2 0 = None"
    and i: "promises s2 (target (caller ?x)) = Some (Resolved (assistantText ?x))"
    by blast
  have b': "steps [ToolDone 0 (Inl (Error ''ssh failed''))] ?s = Some s1"
    using b by (simp only: list.map)
  have c': "map_option pc (runs s1 0) = Some AwaitNext"
    using c d by simp
  have e': "arrays s1 (history ?x) = arrays ?s (history ?x) @
       [\<lparr>msg_role = User, msg_content = Results [ToolResult ''t1'' ''Error: ssh failed'' True]\<rparr>]"
    unfolding e by simp
  show ?thesis
    by (intro exI[of _ ?s] exI[of _ ?x] exI[of _ s1] exI[of _ s2] conjI a x p b' c' e' f g h i)
qed

section \<open>Queued callers\<close>

text \<open>
  C10.  Take a message that \<open>sendMessage\<close> queues behind an active run, in a state the
  event loop reaches from the initial one; its caller holds the promise numbered
  \<open>nextPromise s\<close>.  Whatever events follow, the promise is never rejected; and when the
  model call of a run that settles this promise throws, the promise is resolved with the
  text \<open>Error: \<close> followed by the error's message.
\<close>

theorem queued_promise_never_rejects:
  assumes "steps evs init = Some s" and "ch \<in> processingLocks s"
    and "step (SendMessage ch um cn mc) s = Some s1" and "steps evs1 s1 = Some s2"
  shows "(\<forall>e. promises s2 (nextPromise s) \<noteq> Some (Rejected e)) \<and>
         (\<forall>r x e s3. runs s2 r = Some x \<longrightarrow> target (caller x) = nextPromise s \<longrightarrow>
            step (ModelReply r (Inl e)) s2 = Some s3 \<longrightarrow>
            promises s3 (nextPromise s) = Some (Resolved (''Error: '' @ message_of e)))"
proof -
  have fr: "inv_fresh s" using inv_fresh_steps[OF inv_fresh_init assms(1)] .
  have s1: "s1 = sendMessage ch um cn mc (Outside (nextPromise s)) (s\<lparr>nextPromise := Suc (nextPromise s)\<rparr>)"
    using assms(3) by (simp add: step_def)
  have "inv_promise (nextPromise s) s1"
    unfolding s1 by (rule inv_promise_enqueue[OF fr assms(2)])
  then have inv: "inv_promise (nextPromise s) s2"
    using inv_promise_steps assms(4) by blast
  show ?thesis
  proof (intro conjI allI impI)
    fix e show "promises s2 (nextPromise s) \<noteq> Some (Rejected e)"
      using inv by (simp add: inv_promise_def)
  next
    fix r x e s3
    assume x: "runs s2 r = Some x" and t: "target (caller x) = nextPromise s"
      and st: "step (ModelReply r (Inl e)) s2 = Some s3"
    have "\<not> is_outside (caller x)" using inv x t by (simp add: inv_promise_def)
    then show "promises s3 (nextPromise s) = Some (Resolved (''Error: '' @ message_of e))"
      using st x t by (auto simp: step_def sendMessage_throw_def reject_eq split: pc.splits)
  qed
qed

theorem queued_promise_never_rejects_witness:
  "\<exists>s s1 s2 x s3.
     steps [SendMessage ''c'' ''A'' None None] init = Some s \<and> ''c'' \<in> processingLocks s \<and>
     step (SendMessage ''c'' ''B'' None None) s = Some s1 \<and>
     steps [ModelReply 0 (Inr \<lparr>content = [], input_tokens = 0, output_tokens = 0\<rparr>), Immediate] s1 = Some s2 \<and>
     runs s2 1 = Some x \<and> target (caller x) = nextPromise s \<and>
     step (ModelReply 1 (Inl (Error ''boom''))) s2 = Some s3 \<and>
     promises s2 (nextPromise s) \<noteq> Some (Rejected (Error ''boom'')) \<and>
     promises s3 (nextPromise s) = Some (Resolved ''Error: boom'')"
proof -
  let ?s = "the (steps [SendMessage ''c'' ''A'' None None] init)"
  let ?s1 = "the (step (SendMessage ''c'' ''B'' None None) ?s)"
  let ?evs1 = "[ModelReply 0 (Inr \<lparr>content = [], input_tokens = 0, output_tokens = 0\<rparr>), Immediate]"
  let ?s2 = "the (steps ?evs1 ?s1)"
  let ?x = "the (runs ?s2 1)"
  let ?s3 = "the (step (ModelReply 1 (Inl (Error ''boom''))) ?s2)"
  have a: "steps [SendMessage ''c'' ''A'' None None] init = Some ?s"
    by (simp add: run_simps)
  have b: "''c'' \<in> processingLocks ?s"
    by (simp add: run_simps)
  have c: "step (SendMessage ''c'' ''B'' None None) ?s = Some ?s1"
    by (simp add: run_simps)
  have d: "steps ?evs1 ?s1 = Some ?s2"
    by (simp add: run_simps)
  have e: "runs ?s2 1 = Some ?x"
    by (simp add: run_simps)
  have f: "target (caller ?x) = nextPromise ?s"
    by (simp add: run_simps)
  have g: "step (ModelReply 1 (Inl (Error ''boom''))) ?s2 = Some ?s3"
    by (simp add: run_simps)
  note th = queued_promise_never_rejects[OF a b c d]
  have h: "promises ?s2 (nextPromise ?s) \<noteq> Some (Rejected (Error ''boom''))"
    using th by blast
  have "promises ?s3 (nextPromise ?s) = Some (Resolved (''Error: '' @ message_of (Error ''boom'')))"
    using th e f g by blast
  then have i: "promises ?s3 (nextPromise ?s) = Some (Resolved ''Error: boom'')"
    by simp
  show ?thesis
    by (intro exI[of _ ?s] exI[of _ ?s1] exI[of _ ?s2] exI[of _ ?x] exI[of _ ?s3] conjI a b c d e f g h i)
qed

end
